theory Spec2Isabelle
  imports Main "HOL-Library.Word"
begin

section \<open>Per-sender sequence tracker (SingleSenderStats)\<close>

text \<open>
  The tracker of \<^verbatim>\<open>OctreeInboundPacketProcessor.cpp\<close>: one
  \<^verbatim>\<open>SingleSenderStats\<close> per sender. Sequence numbers are
  \<^verbatim>\<open>unsigned short int\<close> (16 bits, wrapping) and the missing set is a
  \<^verbatim>\<open>QSet<unsigned short int>\<close>, as the source file uses them.

  Modelled from the spec: the class declaration is in
  \<^verbatim>\<open>OctreeInboundPacketProcessor.h\<close>, which is not among the sources; the five
  counters are unsigned 64-bit integers, as in the data model of the spec (and as the
  \<^verbatim>\<open>quint64\<close> parameters added to them suggest).
\<close>

type_synonym u16 = "16 word"
type_synonym u64 = "64 word"

record SingleSenderStats =
  totalTransitTime :: u64
  totalProcessTime :: u64
  totalLockWaitTime :: u64
  totalElementsInPacket :: u64
  totalPackets :: u64
  incomingLastSequence :: u16
  missingSequenceNumbers :: "u16 set"

text \<open>The constructor \<^verbatim>\<open>SingleSenderStats::SingleSenderStats()\<close>.\<close>

definition newSingleSenderStats :: SingleSenderStats where
  "newSingleSenderStats =
     \<lparr> totalTransitTime = 0, totalProcessTime = 0, totalLockWaitTime = 0,
       totalElementsInPacket = 0, totalPackets = 0, incomingLastSequence = 0,
       missingSequenceNumbers = {} \<rparr>"

definition UINT16_RANGE :: int where
  "UINT16_RANGE = 65535 + 1"

definition MAX_REASONABLE_SEQUENCE_GAP :: int where
  "MAX_REASONABLE_SEQUENCE_GAP = 1000"

definition MAX_MISSING_SEQUENCE_SIZE :: int where
  "MAX_MISSING_SEQUENCE_SIZE = 100"

text \<open>
  \<^verbatim>\<open>expectedSequence = _totalPackets == 0 ? incomingSequence : _incomingLastSequence + 1\<close>,
  truncated to 16 bits by the assignment.
\<close>

definition expectedSequence :: "SingleSenderStats \<Rightarrow> u16 \<Rightarrow> u16" where
  "expectedSequence s incomingSequence =
     (if totalPackets s = 0 then incomingSequence else incomingLastSequence s + 1)"

text \<open>
  The loop of the early branch,
  \<^verbatim>\<open>for (int missingSequence = expected; missingSequence < incoming; missingSequence++)\<close>,
  which inserts \<^verbatim>\<open>missingSequence < 0 ? missingSequence + UINT16_RANGE : missingSequence\<close>
  (converted to 16 bits by the set's element type).
\<close>

function insertSkipped :: "int \<Rightarrow> int \<Rightarrow> u16 set \<Rightarrow> u16 set" where
  "insertSkipped missingSequence incoming S =
     (if missingSequence < incoming
      then insertSkipped (missingSequence + 1) incoming
             (insert (word_of_int (if missingSequence < 0 then missingSequence + UINT16_RANGE
                                   else missingSequence)) S)
      else S)"
  by pat_completeness auto
termination
  by (relation "measure (\<lambda>(m, i, S). nat (i - m))") auto

declare insertSkipped.simps [simp del]

text \<open>
  The out-of-order branch of \<^verbatim>\<open>trackInboundPacket\<close> on the two \<^verbatim>\<open>int\<close>
  values. \<^verbatim>\<open>None\<close> is the early \<^verbatim>\<open>return\<close> of the unreasonable gap.
  The \<^verbatim>\<open>int\<close>s of the source are 32 bits wide; every value computed here lies
  between \<open>-65536\<close> and \<open>65535\<close>, so unbounded integers compute the same.
\<close>

definition rolloverCorrect :: "int \<Rightarrow> int \<Rightarrow> (int \<times> int) option" where
  "rolloverCorrect incoming expected =
     (let absGap = \<bar>incoming - expected\<bar> in
      if absGap \<ge> UINT16_RANGE - MAX_REASONABLE_SEQUENCE_GAP then
        (if incoming > expected then Some (incoming - UINT16_RANGE, expected)
         else Some (incoming, expected - UINT16_RANGE))
      else if absGap > MAX_REASONABLE_SEQUENCE_GAP then None
      else Some (incoming, expected))"

definition trackSequence :: "SingleSenderStats \<Rightarrow> u16 \<Rightarrow> SingleSenderStats option" where
  "trackSequence s incomingSequence =
     (let expectedSeq = expectedSequence s incomingSequence in
      if incomingSequence = expectedSeq then
        Some (s\<lparr>incomingLastSequence := incomingSequence\<rparr>)
      else
        (case rolloverCorrect (uint incomingSequence) (uint expectedSeq) of
           None \<Rightarrow> None
         | Some (incoming, expected) \<Rightarrow>
             if incoming > expected then
               Some (s\<lparr>missingSequenceNumbers :=
                           insertSkipped expected incoming (missingSequenceNumbers s),
                       incomingLastSequence := incomingSequence\<rparr>)
             else
               Some (s\<lparr>missingSequenceNumbers :=
                           missingSequenceNumbers s - {incomingSequence}\<rparr>)))"

text \<open>
  The pruning block. Qt's \<^verbatim>\<open>foreach\<close> iterates over a copy of the container taken
  before the loop, so removing from \<^verbatim>\<open>_missingSequenceNumbers\<close> in the body does
  not disturb the iteration: each element of the old set is tested once and removed
  when the test holds. The comparisons are on \<^verbatim>\<open>unsigned short\<close> values.
\<close>

definition pruneMissing :: "SingleSenderStats \<Rightarrow> SingleSenderStats" where
  "pruneMissing s =
     (if int (card (missingSequenceNumbers s)) > MAX_MISSING_SEQUENCE_SIZE then
        (let cutoff = uint (incomingLastSequence s) - MAX_REASONABLE_SEQUENCE_GAP in
         if cutoff \<ge> 0 then
           (let nonRolloverCutoff = (word_of_int cutoff :: u16) in
            s\<lparr>missingSequenceNumbers :=
                Set.filter (\<lambda>missingSequence.
                     \<not> (missingSequence > incomingLastSequence s
                        \<or> missingSequence \<le> nonRolloverCutoff))
                  (missingSequenceNumbers s)\<rparr>)
         else
           (let rolloverCutoff = (word_of_int (cutoff + UINT16_RANGE) :: u16) in
            s\<lparr>missingSequenceNumbers :=
                Set.filter (\<lambda>missingSequence.
                     \<not> (missingSequence > incomingLastSequence s
                        \<and> missingSequence \<le> rolloverCutoff))
                  (missingSequenceNumbers s)\<rparr>))
      else s)"

text \<open>The block under \<^verbatim>\<open>// update other stats\<close>. \<^verbatim>\<open>editsInPacket\<close> is an
  \<^verbatim>\<open>int\<close>, converted to 64 bits by the addition.\<close>

definition updateOtherStats ::
  "SingleSenderStats \<Rightarrow> u64 \<Rightarrow> int \<Rightarrow> u64 \<Rightarrow> u64 \<Rightarrow> SingleSenderStats" where
  "updateOtherStats s transitTime editsInPacket processTime lockWaitTime =
     s\<lparr>totalTransitTime := totalTransitTime s + transitTime,
       totalProcessTime := totalProcessTime s + processTime,
       totalLockWaitTime := totalLockWaitTime s + lockWaitTime,
       totalElementsInPacket := totalElementsInPacket s + word_of_int editsInPacket,
       totalPackets := totalPackets s + 1\<rparr>"

text \<open>\<^verbatim>\<open>SingleSenderStats::trackInboundPacket\<close>.\<close>

definition trackInboundPacket ::
  "SingleSenderStats \<Rightarrow> u16 \<Rightarrow> u64 \<Rightarrow> int \<Rightarrow> u64 \<Rightarrow> u64 \<Rightarrow> SingleSenderStats" where
  "trackInboundPacket s incomingSequence transitTime editsInPacket processTime lockWaitTime =
     (case trackSequence s incomingSequence of
        None \<Rightarrow> s
      | Some s' \<Rightarrow>
          updateOtherStats (pruneMissing s') transitTime editsInPacket processTime lockWaitTime)"

text \<open>One call of the tracker, with the measurements of the packet.\<close>

record observation =
  obsSequence :: u16
  obsTransitTime :: u64
  obsEdits :: int
  obsProcessTime :: u64
  obsLockWaitTime :: u64

definition observe :: "SingleSenderStats \<Rightarrow> observation \<Rightarrow> SingleSenderStats" where
  "observe s ob =
     trackInboundPacket s (obsSequence ob) (obsTransitTime ob) (obsEdits ob)
       (obsProcessTime ob) (obsLockWaitTime ob)"

definition observeAll :: "SingleSenderStats \<Rightarrow> observation list \<Rightarrow> SingleSenderStats" where
  "observeAll s obs = foldl observe s obs"

text \<open>An observation that carries only a sequence number (all measurements zero).\<close>

definition seqOnly :: "u16 \<Rightarrow> observation" where
  "seqOnly q = \<lparr> obsSequence = q, obsTransitTime = 0, obsEdits = 0,
                 obsProcessTime = 0, obsLockWaitTime = 0 \<rparr>"

text \<open>
  The condition under which \<^verbatim>\<open>trackInboundPacket\<close> reaches its early
  \<^verbatim>\<open>return\<close>: the packet is out of order, the gap is below the rollover
  threshold and above the reasonable gap.
\<close>

definition unreasonableGap :: "SingleSenderStats \<Rightarrow> u16 \<Rightarrow> bool" where
  "unreasonableGap s incomingSequence =
     (let expectedSeq = expectedSequence s incomingSequence;
          absGap = \<bar>uint incomingSequence - uint expectedSeq\<bar>
      in incomingSequence \<noteq> expectedSeq
         \<and> \<not> absGap \<ge> UINT16_RANGE - MAX_REASONABLE_SEQUENCE_GAP
         \<and> absGap > MAX_REASONABLE_SEQUENCE_GAP)"

text \<open>The number of calls of a run that end in the early \<^verbatim>\<open>return\<close>.\<close>

fun rejectedCalls :: "SingleSenderStats \<Rightarrow> observation list \<Rightarrow> nat" where
  "rejectedCalls s [] = 0"
| "rejectedCalls s (ob # obs) =
     (if unreasonableGap s (obsSequence ob) then 1 else 0) + rejectedCalls (observe s ob) obs"
section \<open>The missing set as the spec describes it\<close>

text \<open>
  The definitions of this section follow the words of the specification, to be compared
  with what \<^verbatim>\<open>trackInboundPacket\<close> computes.

  Two sequence numbers are within the reasonable gap of each other when their distance
  modulo \<open>2^16\<close> (the difference read as a signed 16-bit value) is at most
  \<open>MAX_REASONABLE_SEQUENCE_GAP\<close>.
\<close>

definition pairwiseWithinGap :: "u16 list \<Rightarrow> bool" where
  "pairwiseWithinGap qs \<longleftrightarrow>
     (\<forall>a\<in>set qs. \<forall>b\<in>set qs. \<bar>sint (a - b)\<bar> \<le> MAX_REASONABLE_SEQUENCE_GAP)"

text \<open>
  The expected range: the sequence numbers from the first one observed up to the last
  accepted one, counted upwards modulo \<open>2^16\<close>.
\<close>

definition expectedRange :: "u16 \<Rightarrow> u16 \<Rightarrow> u16 set" where
  "expectedRange firstSeq lastSeq =
     (\<lambda>k. firstSeq + of_nat k) ` {0 .. unat (lastSeq - firstSeq)}"

text \<open>The numbers of the expected range that are not among the observed ones.\<close>

definition neverReceived :: "u16 list \<Rightarrow> u16 \<Rightarrow> u16 set" where
  "neverReceived qs lastSeq =
     (case qs of [] \<Rightarrow> {} | firstSeq # _ \<Rightarrow> expectedRange firstSeq lastSeq - set qs)"

text \<open>
  The window of the last \<open>MAX_REASONABLE_SEQUENCE_GAP\<close> sequence numbers up to the last
  sequence: \<open>m\<close> is in it when counting up from \<open>m\<close> reaches the last sequence in
  fewer than \<open>MAX_REASONABLE_SEQUENCE_GAP\<close> steps, modulo \<open>2^16\<close>.
\<close>

definition withinWindow :: "u16 \<Rightarrow> u16 \<Rightarrow> bool" where
  "withinWindow lastSeq m \<longleftrightarrow> uint (lastSeq - m) < MAX_REASONABLE_SEQUENCE_GAP"

subsection \<open>Invariants used in the proofs\<close>

text \<open>The signed distance from \<open>f\<close> to \<open>x\<close> modulo \<open>2^16\<close>.\<close>

definition seqOffset :: "u16 \<Rightarrow> u16 \<Rightarrow> int" where
  "seqOffset f x = sint (x - f)"

text \<open>
  The state of the tracker after the numbers \<open>R\<close> have been observed, the first of
  them being \<open>f\<close>: the last sequence is the furthest of \<open>R\<close>, at most the reasonable
  gap ahead of \<open>f\<close>, and the missing set holds what lies strictly between \<open>f\<close> and the
  last sequence and is not in \<open>R\<close>.
\<close>

definition seqInv :: "u16 \<Rightarrow> u16 set \<Rightarrow> SingleSenderStats \<Rightarrow> bool" where
  "seqInv f R s \<longleftrightarrow>
     f \<in> R \<and> incomingLastSequence s \<in> R
     \<and> (\<forall>x\<in>R. seqOffset f x \<le> seqOffset f (incomingLastSequence s))
     \<and> seqOffset f (incomingLastSequence s) \<le> 1000
     \<and> missingSequenceNumbers s
          = {m. 0 < seqOffset f m \<and> seqOffset f m < seqOffset f (incomingLastSequence s)} - R"

text \<open>After at most \<open>n\<close> calls the packet counter is positive and at most \<open>n\<close>.\<close>

definition counterInv :: "nat \<Rightarrow> SingleSenderStats \<Rightarrow> bool" where
  "counterInv n s \<longleftrightarrow> 0 < unat (totalPackets s) \<and> unat (totalPackets s) \<le> n"

section \<open>The inbound packet processor (OctreeInboundPacketProcessor)\<close>

text \<open>
  Node identities are \<^verbatim>\<open>QUuid\<close>s (128 bits), packets are \<^verbatim>\<open>QByteArray\<close>s.
  \<^verbatim>\<open>PacketType\<close> is declared in \<^verbatim>\<open>PacketHeaders.h\<close>, which is not among the
  sources; its values are taken as numbers.
\<close>

type_synonym uuid = "128 word"
type_synonym byte = "8 word"
type_synonym PacketType = nat

text \<open>
  What the processor calls and does not define: the packet header codec, the octree, the
  clock, the node list and the iteration order of a \<^verbatim>\<open>QSet\<close>. They are parameters of
  the model.
  \<^item> \<open>processEditPacketData\<close> gets the octree, the packet type, the whole packet, the
    offset of \<^verbatim>\<open>editData\<close> in the packet, \<^verbatim>\<open>maxSize\<close> and the sending node, and
    returns the bytes read and the octree after the edit.
  \<^item> \<open>usecTimestampNow c n\<close> is the value that the \<open>n\<close>-th call of
    \<^verbatim>\<open>usecTimestampNow()\<close> returns.
  \<^item> \<open>nackHeader\<close> is what \<^verbatim>\<open>populatePacketHeader(packet, getMyEditNackType())\<close>
    writes; its length is the \<^verbatim>\<open>numBytesPacketHeader\<close> of the NACK builder.
  \<^item> \<open>setOrder S\<close> is the order in which an iterator runs through the set \<open>S\<close>.
  \<^item> \<open>bytesBeyond c packet i\<close> is the byte that a read at offset \<open>i\<close> finds when
    \<open>i\<close> lies outside the packet: the source reads the prefix of a packet without
    looking at its length.
\<close>

record 'o collaborators =
  numBytesForPacketHeader :: "byte list \<Rightarrow> int"
  packetTypeForPacket :: "byte list \<Rightarrow> PacketType"
  handlesEditPacketType :: "PacketType \<Rightarrow> bool"
  processEditPacketData ::
    "'o \<Rightarrow> PacketType \<Rightarrow> byte list \<Rightarrow> int \<Rightarrow> int \<Rightarrow> uuid option \<Rightarrow> int \<times> 'o"
  usecTimestampNow :: "nat \<Rightarrow> u64"
  isAlive :: "uuid \<Rightarrow> bool"
  setOrder :: "u16 set \<Rightarrow> u16 list"
  MAX_PACKET_SIZE :: int
  nackHeader :: "byte list"
  bytesBeyond :: "byte list \<Rightarrow> int \<Rightarrow> byte"

text \<open>
  The state of the processor: the members that the source file reads and writes, the
  octree, the number of clock readings taken so far, the last-heard stamps of the nodes
  and the file-level \<^verbatim>\<open>static QUuid DEFAULT_NODE_ID_REF\<close>. The hash
  \<^verbatim>\<open>_singleSenderStats\<close> is a list of entries in iteration order. The members
  are declared in headers that are not among the sources; the counters are unsigned
  64-bit integers, as in the spec.
\<close>

record 'o processor =
  octree :: 'o
  clockCalls :: nat
  receivedPacketCount :: int
  procTotalTransitTime :: u64
  procTotalProcessTime :: u64
  procTotalLockWaitTime :: u64
  procTotalElementsInPacket :: u64
  procTotalPackets :: u64
  singleSenderStats :: "(uuid \<times> SingleSenderStats) list"
  nodePacketCounts :: "uuid \<Rightarrow> int"
  lastHeardMicrostamp :: "uuid \<Rightarrow> u64 option"
  DEFAULT_NODE_ID_REF :: uuid

subsection \<open>Reading the fixed prefix of an edit packet\<close>

text \<open>
  The source reads the sequence number and the send time through pointer casts,
  \<^verbatim>\<open>*((unsigned short int*)(packetData + numBytesPacketHeader))\<close> and
  \<^verbatim>\<open>*((quint64*)(packetData + numBytesPacketHeader + sizeof(sequence)))\<close>, in the
  byte order of the host; the model reads them least significant byte first. There is no
  test of the length of the packet: a packet shorter than the prefix is read all the
  same, with the bytes that lie beyond it.
\<close>

definition leValue :: "byte list \<Rightarrow> nat" where
  "leValue bs = foldr (\<lambda>b acc. unat b + 256 * acc) bs 0"

definition byteAt :: "'o collaborators \<Rightarrow> byte list \<Rightarrow> int \<Rightarrow> byte" where
  "byteAt c packet i =
     (if 0 \<le> i \<and> i < int (length packet) then packet ! nat i else bytesBeyond c packet i)"

definition readU16 :: "'o collaborators \<Rightarrow> byte list \<Rightarrow> int \<Rightarrow> u16" where
  "readU16 c packet at = of_nat (leValue (map (\<lambda>k. byteAt c packet (at + int k)) [0..<2]))"

definition readU64 :: "'o collaborators \<Rightarrow> byte list \<Rightarrow> int \<Rightarrow> u64" where
  "readU64 c packet at = of_nat (leValue (map (\<lambda>k. byteAt c packet (at + int k)) [0..<8]))"

subsection \<open>The loop over the edit records\<close>

record 'o editLoopState =
  elOctree :: 'o
  elClock :: nat
  elAtByte :: int
  elEditsInPacket :: int
  elProcessTime :: u64
  elLockWaitTime :: u64

text \<open>
  \<^verbatim>\<open>while (atByte < packet.size()) { ... }\<close> of \<^verbatim>\<open>processPacket\<close>. The pointer
  \<^verbatim>\<open>editData\<close> advances with \<^verbatim>\<open>atByte\<close>, so the offset stands for both. The loop
  need not end: not returning is \<open>None\<close>.
\<close>

partial_function (option) editLoop ::
  "'o collaborators \<Rightarrow> PacketType \<Rightarrow> byte list \<Rightarrow> uuid option \<Rightarrow> 'o editLoopState
     \<Rightarrow> 'o editLoopState option" where
  "editLoop c packetType packet sendingNode l =
     (if elAtByte l < int (length packet) then
        (let maxSize = int (length packet) - elAtByte l;
             startLock = usecTimestampNow c (elClock l);
             startProcess = usecTimestampNow c (elClock l + 1);
             (editDataBytesRead, octree') =
                processEditPacketData c (elOctree l) packetType packet (elAtByte l) maxSize
                  sendingNode;
             endProcess = usecTimestampNow c (elClock l + 2);
             thisProcessTime = endProcess - startProcess;
             thisLockWaitTime = startProcess - startLock
         in editLoop c packetType packet sendingNode
              \<lparr>elOctree = octree', elClock = elClock l + 3,
               elAtByte = elAtByte l + editDataBytesRead,
               elEditsInPacket = elEditsInPacket l + 1,
               elProcessTime = elProcessTime l + thisProcessTime,
               elLockWaitTime = elLockWaitTime l + thisLockWaitTime\<rparr>)
      else Some l)"

declare editLoop.simps [code]

subsection \<open>Tracking a packet under a node identity\<close>

text \<open>\<^verbatim>\<open>_singleSenderStats[nodeUUID] = stats\<close>: replace the entry of the key, or add one.\<close>

fun hashInsert ::
  "uuid \<Rightarrow> SingleSenderStats \<Rightarrow> (uuid \<times> SingleSenderStats) list
     \<Rightarrow> (uuid \<times> SingleSenderStats) list" where
  "hashInsert k v [] = [(k, v)]"
| "hashInsert k v ((k', v') # entries) =
     (if k = k' then (k, v) # entries else (k', v') # hashInsert k v entries)"

text \<open>\<^verbatim>\<open>OctreeInboundPacketProcessor::trackInboundPacket\<close>.\<close>

definition processorTrackInboundPacket ::
  "'o processor \<Rightarrow> uuid \<Rightarrow> u16 \<Rightarrow> u64 \<Rightarrow> int \<Rightarrow> u64 \<Rightarrow> u64 \<Rightarrow> 'o processor" where
  "processorTrackInboundPacket st nodeUUID sequence transitTime editsInPacket processTime
       lockWaitTime =
     (let st1 = st\<lparr>procTotalTransitTime := procTotalTransitTime st + transitTime,
                   procTotalProcessTime := procTotalProcessTime st + processTime,
                   procTotalLockWaitTime := procTotalLockWaitTime st + lockWaitTime,
                   procTotalElementsInPacket :=
                     procTotalElementsInPacket st + word_of_int editsInPacket,
                   procTotalPackets := procTotalPackets st + 1\<rparr>;
          stats = (case map_of (singleSenderStats st) nodeUUID of
                     None \<Rightarrow> newSingleSenderStats
                   | Some found \<Rightarrow> found)
      in st1\<lparr>singleSenderStats :=
               hashInsert nodeUUID
                 (trackInboundPacket stats sequence transitTime editsInPacket processTime
                    lockWaitTime)
                 (singleSenderStats st)\<rparr>)"

subsection \<open>processPacket\<close>

text \<open>The variables of the record loop when it is entered.\<close>

definition recordLoopStart :: "'o collaborators \<Rightarrow> 'o processor \<Rightarrow> byte list \<Rightarrow> 'o editLoopState" where
  "recordLoopStart c st packet =
     \<lparr>elOctree = octree st, elClock = clockCalls st + 1,
      elAtByte = numBytesForPacketHeader c packet + 2 + 8, elEditsInPacket = 0,
      elProcessTime = 0, elLockWaitTime = 0\<rparr>"

text \<open>
  The part of \<^verbatim>\<open>processPacket\<close> after the record loop: the node is marked as
  heard from, \<^verbatim>\<open>nodeUUID\<close> is set and the packet is tracked. \<^verbatim>\<open>nodeUUID\<close> is
  a reference to \<^verbatim>\<open>DEFAULT_NODE_ID_REF\<close>, so the assignment
  \<^verbatim>\<open>nodeUUID = sendingNode->getUUID()\<close> writes the static variable, and the call
  of \<^verbatim>\<open>trackInboundPacket\<close> gets what the static variable holds.
\<close>

definition trackProcessedPacket ::
  "'o collaborators \<Rightarrow> 'o processor \<Rightarrow> uuid option \<Rightarrow> byte list \<Rightarrow> 'o editLoopState
     \<Rightarrow> 'o processor" where
  "trackProcessedPacket c st sendingNode packet l =
     (let numBytesPacketHeader = numBytesForPacketHeader c packet;
          sequence = readU16 c packet numBytesPacketHeader;
          sentAt = readU64 c packet (numBytesPacketHeader + 2);
          arrivedAt = usecTimestampNow c (clockCalls st);
          transitTime = arrivedAt - sentAt;
          st1 = st\<lparr>receivedPacketCount := receivedPacketCount st + 1,
                   octree := elOctree l, clockCalls := elClock l\<rparr>;
          st2 = (case sendingNode of
                   Some node \<Rightarrow>
                     st1\<lparr>lastHeardMicrostamp :=
                            (lastHeardMicrostamp st1)
                              (node \<mapsto> usecTimestampNow c (clockCalls st1)),
                          clockCalls := clockCalls st1 + 1,
                          DEFAULT_NODE_ID_REF := node\<rparr>
                 | None \<Rightarrow> st1)
      in processorTrackInboundPacket st2 (DEFAULT_NODE_ID_REF st2) sequence transitTime
           (elEditsInPacket l) (elProcessTime l) (elLockWaitTime l))"

text \<open>
  \<^verbatim>\<open>OctreeInboundPacketProcessor::processPacket\<close>, without its debug output. The
  sending node is \<open>None\<close> for a null \<^verbatim>\<open>SharedNodePointer\<close>. The call does not
  return (\<open>None\<close>) when the record loop does not.
\<close>

definition processPacket ::
  "'o collaborators \<Rightarrow> 'o processor \<Rightarrow> uuid option \<Rightarrow> byte list \<Rightarrow> 'o processor option" where
  "processPacket c st sendingNode packet =
     (let packetType = packetTypeForPacket c packet
      in if handlesEditPacketType c packetType then
           (case editLoop c packetType packet sendingNode (recordLoopStart c st packet) of
              None \<Rightarrow> None
            | Some l \<Rightarrow> Some (trackProcessedPacket c st sendingNode packet l))
         else Some st)"

subsection \<open>Building and sending NACK packets\<close>

text \<open>
  A datagram handed to \<^verbatim>\<open>writeUnverifiedDatagram\<close>: the header, the count, the
  sequence numbers packed after it, and the length \<^verbatim>\<open>dataAt - packet\<close>.
\<close>

record nackDatagram =
  dgDestination :: uuid
  dgHeader :: "byte list"
  dgNumSequenceNumbers :: u16
  dgSequenceNumbers :: "u16 list"
  dgNumBytes :: int

text \<open>
  \<^verbatim>\<open>(bytesRemaining - sizeof(uint16_t)) / sizeof(unsigned short int)\<close>: the
  subtraction and the division are done in \<^verbatim>\<open>size_t\<close> (64 bits, unsigned) and the
  result is converted to \<^verbatim>\<open>int\<close> (32 bits).
\<close>

definition sequenceNumbersRoomFor :: "int \<Rightarrow> int" where
  "sequenceNumbersRoomFor bytesRemaining =
     sint (word_of_int (((bytesRemaining - 2) mod 2 ^ 64) div 2) :: 32 word)"

datatype nackError = IteratorPastEnd

text \<open>
  \<^verbatim>\<open>for (uint16_t i = 0; i < numSequenceNumbers; i++)\<close>: each round writes the
  number under the iterator, moves \<^verbatim>\<open>dataAt\<close> by two bytes and advances the
  iterator. Reading through an iterator that has reached the end has no defined
  result; it is \<open>None\<close> here, and \<open>IteratorPastEnd\<close> in the loops below.
\<close>


function packSequenceNumbers ::
  "nat \<Rightarrow> nat \<Rightarrow> u16 list \<Rightarrow> int \<Rightarrow> u16 list \<Rightarrow> (u16 list \<times> u16 list \<times> int) option" where
  "packSequenceNumbers i numSequenceNumbers it dataAt written =
     (if i < numSequenceNumbers then
        (case it of
           [] \<Rightarrow> None
         | sequenceNumber # it' \<Rightarrow>
             packSequenceNumbers (i + 1) numSequenceNumbers it' (dataAt + 2)
               (written @ [sequenceNumber]))
      else Some (written, it, dataAt))"
  by pat_completeness auto
termination
  by (relation "measure (\<lambda>(i, n, it, d, w). n - i)") auto

declare packSequenceNumbers.simps [simp del]

text \<open>
  \<^verbatim>\<open>while (numSequenceNumbersAvailable > 0) { ... }\<close>: one datagram per round. The
  loop need not end: not returning is \<open>None\<close>.
\<close>

partial_function (option) nackLoop ::
  "int \<Rightarrow> byte list \<Rightarrow> uuid \<Rightarrow> int \<Rightarrow> u16 list \<Rightarrow> int \<Rightarrow> nackDatagram list
     \<Rightarrow> (nackError + int \<times> nackDatagram list) option" where
  "nackLoop maxPacketSize header destinationNode numSequenceNumbersAvailable it packetsSent sent =
     (if numSequenceNumbersAvailable > 0 then
        (let numBytesPacketHeader = int (length header);
             bytesRemaining = maxPacketSize - numBytesPacketHeader;
             numSequenceNumbersRoomFor = sequenceNumbersRoomFor bytesRemaining;
             numSequenceNumbers =
               (word_of_int (min numSequenceNumbersAvailable numSequenceNumbersRoomFor) :: u16)
         in case packSequenceNumbers 0 (unat numSequenceNumbers) it
                   (numBytesPacketHeader + 2) [] of
              None \<Rightarrow> Some (Inl IteratorPastEnd)
            | Some (written, it', dataAt) \<Rightarrow>
                nackLoop maxPacketSize header destinationNode
                  (numSequenceNumbersAvailable - uint numSequenceNumbers) it'
                  (packetsSent + 1)
                  (sent @ [\<lparr>dgDestination = destinationNode, dgHeader = header,
                             dgNumSequenceNumbers = numSequenceNumbers,
                             dgSequenceNumbers = written, dgNumBytes = dataAt\<rparr>]))
      else Some (Inr (packetsSent, sent)))"

declare nackLoop.simps [code]

text \<open>
  Modelled from the spec: \<^verbatim>\<open>hasPacketsToProcessFrom\<close> is declared in the base class
  of the processor, which is not among the sources. The spec has it report the queue
  accounting: the sender has packets still waiting in the inbound queue, that is, its
  pending count (\<^verbatim>\<open>_nodePacketCounts\<close>, decremented by \<^verbatim>\<open>process()\<close>) is positive.
\<close>

definition hasPacketsToProcessFrom :: "'o processor \<Rightarrow> uuid \<Rightarrow> bool" where
  "hasPacketsToProcessFrom st nodeUUID \<longleftrightarrow> nodePacketCounts st nodeUUID > 0"

record nackSweepResult =
  swStats :: "(uuid \<times> SingleSenderStats) list"
  swPacketsSent :: int
  swSent :: "nackDatagram list"

text \<open>
  The loop of \<^verbatim>\<open>sendNackPackets\<close> over \<^verbatim>\<open>_singleSenderStats\<close>. \<open>visited\<close> are the
  entries before the iterator \<^verbatim>\<open>i\<close>, \<open>rest\<close> the entries from \<^verbatim>\<open>i\<close> on.
  \<^item> A dead node: \<^verbatim>\<open>i = _singleSenderStats.erase(i); continue;\<close> drops the entry and
    goes on with the next one.
  \<^item> A node with waiting packets: \<^verbatim>\<open>continue;\<close> goes back to the loop test with the
    iterator where it was.
  \<^item> Otherwise the NACK datagrams of the node are built and sent, then \<^verbatim>\<open>i++\<close>.
  Nothing changes the pending counts or the liveness during the loop.
\<close>

partial_function (option) nackSweep ::
  "'o collaborators \<Rightarrow> 'o processor \<Rightarrow> (uuid \<times> SingleSenderStats) list
     \<Rightarrow> (uuid \<times> SingleSenderStats) list \<Rightarrow> int \<Rightarrow> nackDatagram list
     \<Rightarrow> (nackError + nackSweepResult) option" where
  "nackSweep c st visited rest packetsSent sent =
     (case rest of
        [] \<Rightarrow> Some (Inr \<lparr>swStats = visited, swPacketsSent = packetsSent, swSent = sent\<rparr>)
      | (nodeUUID, nodeStats) # rest' \<Rightarrow>
          if \<not> isAlive c nodeUUID then
            nackSweep c st visited rest' packetsSent sent
          else if hasPacketsToProcessFrom st nodeUUID then
            nackSweep c st visited rest packetsSent sent
          else
            (case nackLoop (MAX_PACKET_SIZE c) (nackHeader c) nodeUUID
                    (int (card (missingSequenceNumbers nodeStats)))
                    (setOrder c (missingSequenceNumbers nodeStats)) packetsSent sent of
               None \<Rightarrow> None
             | Some (Inl err) \<Rightarrow> Some (Inl err)
             | Some (Inr (packetsSent', sent')) \<Rightarrow>
                 nackSweep c st (visited @ [(nodeUUID, nodeStats)]) rest' packetsSent' sent'))"

declare nackSweep.simps [code]

text \<open>
  \<^verbatim>\<open>OctreeInboundPacketProcessor::sendNackPackets\<close>: the number of packets sent,
  the datagrams, and the processor with the dead entries erased.
\<close>

definition sendNackPackets ::
  "'o collaborators \<Rightarrow> 'o processor
     \<Rightarrow> (nackError + int \<times> nackDatagram list \<times> 'o processor) option" where
  "sendNackPackets c st =
     (case nackSweep c st [] (singleSenderStats st) 0 [] of
        None \<Rightarrow> None
      | Some (Inl err) \<Rightarrow> Some (Inl err)
      | Some (Inr r) \<Rightarrow>
          Some (Inr (swPacketsSent r, swSent r, st\<lparr>singleSenderStats := swStats r\<rparr>)))"

text \<open>
  The split of a list of sequence numbers into datagrams as the spec words it: each
  datagram takes the minimum of what remains and of the room.
\<close>

function nackChunks :: "nat \<Rightarrow> u16 list \<Rightarrow> u16 list list" where
  "nackChunks room remaining =
     (if remaining = [] \<or> room = 0 then []
      else take (min (length remaining) room) remaining
             # nackChunks room (drop (min (length remaining) room) remaining))"
  by pat_completeness auto
termination
  by (relation "measure (\<lambda>(room, remaining). length remaining)") auto

declare nackChunks.simps [simp del]

subsection \<open>Notions used to state the properties of the processor\<close>

text \<open>A datagram that carries the given sequence numbers.\<close>

definition chunkDatagram :: "uuid \<Rightarrow> byte list \<Rightarrow> u16 list \<Rightarrow> nackDatagram" where
  "chunkDatagram dest header chunk =
     \<lparr>dgDestination = dest, dgHeader = header,
      dgNumSequenceNumbers = of_nat (length chunk),
      dgSequenceNumbers = chunk,
      dgNumBytes = int (length header) + 2 + 2 * int (length chunk)\<rparr>"

text \<open>
  The datagrams that a sweep over the given entries is to send: for each live node, in
  the order of the entries, its missing numbers in iteration order, split into
  datagrams.
\<close>

definition sweepDatagrams ::
  "'o collaborators \<Rightarrow> (uuid \<times> SingleSenderStats) list \<Rightarrow> nackDatagram list" where
  "sweepDatagrams c entries =
     concat (map (\<lambda>(nodeUUID, nodeStats).
                    if isAlive c nodeUUID then
                      map (chunkDatagram nodeUUID (nackHeader c))
                        (nackChunks
                           (nat ((MAX_PACKET_SIZE c - int (length (nackHeader c)) - 2) div 2))
                           (setOrder c (missingSequenceNumbers nodeStats)))
                    else [])
                 entries)"

section \<open>Octree snapshot envelopes (OctreeDataUtils)\<close>

text \<open>
  \<^verbatim>\<open>OctreeDataUtils.cpp\<close> writes an envelope as a JSON document and reads it back
  from the map that a parser makes of the bytes. The JSON writer, the parser, the
  compression and the conversions of \<^verbatim>\<open>QVariant\<close> and \<^verbatim>\<open>QUuid\<close> are not among
  the sources: they are parameters of the model, and the types of the bytes (\<open>'b\<close>), of
  the variants (\<open>'v\<close>) and of the JSON objects of the entities (\<open>'j\<close>) are left open.

  The values that \<^verbatim>\<open>toByteArray\<close> puts into the document: a \<^verbatim>\<open>QJsonValue\<close> made
  of a \<^verbatim>\<open>qint64\<close>, one made of a string, and an array of JSON objects.
\<close>

datatype 'j jsonValue = JsonInt64 "64 word" | JsonString string | JsonArray "'j list"

record ('v, 'j, 'b) snapshotCodec =
  uuidToString :: "uuid \<Rightarrow> string"
  variantToUuid :: "'v \<Rightarrow> uuid"
  variantToInt :: "'v \<Rightarrow> 32 word"
  variantToList :: "'v \<Rightarrow> 'v list"
  variantToJsonObject :: "'v \<Rightarrow> 'j"
  invalidVariant :: 'v
  documentToJson :: "(string \<Rightarrow> 'j jsonValue option) \<Rightarrow> 'b"
  gzip :: "'b \<Rightarrow> 'b option"
  gunzip :: "'b \<Rightarrow> 'b option"
  parseEntities :: "'b \<Rightarrow> (string \<Rightarrow> 'v option) option"
  emptyByteArray :: 'b

text \<open>
  Modelled from the spec: the class declarations are in \<^verbatim>\<open>OctreeDataUtils.h\<close>, which
  is not among the sources. The spec gives the envelope an identifier and two unsigned
  64-bit numbers, \<^verbatim>\<open>data_version\<close> and \<^verbatim>\<open>version\<close>. The entity subclass has the
  two members that the source file uses: \<^verbatim>\<open>entityData\<close>, a JSON array, and
  \<^verbatim>\<open>variantEntityData\<close>, a list of variants.
\<close>

record ('v, 'j) RawEntityData =
  idField :: uuid
  dataVersion :: u64
  version :: u64
  entityData :: "'j list"
  variantEntityData :: "'v list"

text \<open>\<^verbatim>\<open>map["key"]\<close> on a constant map: the value, or a default-constructed variant.\<close>

definition variantAt ::
  "('v, 'j, 'b) snapshotCodec \<Rightarrow> (string \<Rightarrow> 'v option) \<Rightarrow> string \<Rightarrow> 'v" where
  "variantAt c m key = (case m key of None \<Rightarrow> invalidVariant c | Some v \<Rightarrow> v)"

text \<open>\<^verbatim>\<open>RawEntityData::readSubclassData(const QVariantMap& root)\<close>.\<close>

definition readSubclassData ::
  "('v, 'j, 'b) snapshotCodec \<Rightarrow> (string \<Rightarrow> 'v option) \<Rightarrow> ('v, 'j) RawEntityData
     \<Rightarrow> ('v, 'j) RawEntityData" where
  "readSubclassData c root e =
     e\<lparr>variantEntityData := variantToList c (variantAt c root ''Entities'')\<rparr>"

text \<open>
  \<^verbatim>\<open>RawOctreeData::readOctreeDataInfoFromMap\<close>. \<^verbatim>\<open>toInt()\<close> yields an
  \<^verbatim>\<open>int\<close> (32 bits), which the assignment converts to the type of the member.
\<close>

definition readOctreeDataInfoFromMap ::
  "('v, 'j, 'b) snapshotCodec \<Rightarrow> (string \<Rightarrow> 'v option) \<Rightarrow> ('v, 'j) RawEntityData
     \<Rightarrow> bool \<times> ('v, 'j) RawEntityData" where
  "readOctreeDataInfoFromMap c m e =
     (let e1 = (if m ''Id'' \<noteq> None \<and> m ''DataVersion'' \<noteq> None \<and> m ''Version'' \<noteq> None
                then e\<lparr>idField := variantToUuid c (variantAt c m ''Id''),
                       dataVersion := scast (variantToInt c (variantAt c m ''DataVersion'')),
                       version := scast (variantToInt c (variantAt c m ''Version''))\<rparr>
                else e)
      in (True, readSubclassData c m e1))"

text \<open>\<^verbatim>\<open>RawOctreeData::readOctreeDataInfoFromData\<close>.\<close>

definition readOctreeDataInfoFromData ::
  "('v, 'j, 'b) snapshotCodec \<Rightarrow> 'b \<Rightarrow> ('v, 'j) RawEntityData
     \<Rightarrow> bool \<times> ('v, 'j) RawEntityData" where
  "readOctreeDataInfoFromData c data e =
     (let data1 = (case gunzip c data of Some jsonData \<Rightarrow> jsonData | None \<Rightarrow> data)
      in case parseEntities c data1 of
           None \<Rightarrow> (False, e)
         | Some entitiesMap \<Rightarrow> readOctreeDataInfoFromMap c entitiesMap e)"

text \<open>
  \<^verbatim>\<open>RawEntityData::writeSubclassData\<close>: the loop appends
  \<^verbatim>\<open>entityIter->toJsonObject()\<close> for each variant of \<^verbatim>\<open>variantEntityData\<close>, in
  order.
\<close>

definition writeSubclassData ::
  "('v, 'j, 'b) snapshotCodec \<Rightarrow> ('v, 'j) RawEntityData \<Rightarrow> (string \<Rightarrow> 'j jsonValue option)
     \<Rightarrow> (string \<Rightarrow> 'j jsonValue option)" where
  "writeSubclassData c e root =
     root(''Entities'' \<mapsto> JsonArray (map (variantToJsonObject c) (variantEntityData e)))"

text \<open>\<^verbatim>\<open>RawOctreeData::toByteArray\<close>.\<close>

definition toByteArray :: "('v, 'j, 'b) snapshotCodec \<Rightarrow> ('v, 'j) RawEntityData \<Rightarrow> 'b" where
  "toByteArray c e =
     documentToJson c
       (writeSubclassData c e
          (Map.empty(''DataVersion'' \<mapsto> JsonInt64 (dataVersion e),
                     ''Id'' \<mapsto> JsonString (uuidToString c (idField e)),
                     ''Version'' \<mapsto> JsonInt64 (version e))))"

text \<open>\<^verbatim>\<open>RawOctreeData::toGzippedByteArray\<close>.\<close>

definition toGzippedByteArray ::
  "('v, 'j, 'b) snapshotCodec \<Rightarrow> ('v, 'j) RawEntityData \<Rightarrow> 'b" where
  "toGzippedByteArray c e =
     (case gzip c (toByteArray c e) of
        None \<Rightarrow> emptyByteArray c
      | Some gzData \<Rightarrow> gzData)"

subsection \<open>What the parameters are taken to do\<close>

text \<open>A 64-bit value fits an \<^verbatim>\<open>int\<close> when, read as signed, it lies in its range.\<close>

definition fitsInt :: "u64 \<Rightarrow> bool" where
  "fitsInt n \<longleftrightarrow> - (2 ^ 31) \<le> sint n \<and> sint n < 2 ^ 31"

text \<open>
  A variant stands for a value of the document when its conversions give the value
  back: \<^verbatim>\<open>toInt\<close> the number, if the number fits an \<^verbatim>\<open>int\<close>; \<^verbatim>\<open>toUuid\<close> the
  identifier whose string form the string is; \<^verbatim>\<open>toList\<close> a list of variants whose
  \<^verbatim>\<open>toJsonObject\<close> are the objects of the array, in order.
\<close>

definition standsFor :: "('v, 'j, 'b) snapshotCodec \<Rightarrow> 'v \<Rightarrow> 'j jsonValue \<Rightarrow> bool" where
  "standsFor c v j =
     (case j of
        JsonInt64 n \<Rightarrow> fitsInt n \<longrightarrow> variantToInt c v = ucast n
      | JsonString s \<Rightarrow> (\<forall>u. s = uuidToString c u \<longrightarrow> variantToUuid c v = u)
      | JsonArray objects \<Rightarrow> map (variantToJsonObject c) (variantToList c v) = objects)"

text \<open>
  The laws of the parameters: \<^verbatim>\<open>gunzip\<close> undoes \<^verbatim>\<open>gzip\<close>, and the parser makes
  of the bytes of a document a map with the keys of the document, each with a variant
  that stands for the value of the key.
\<close>

definition roundTripLaws :: "('v, 'j, 'b) snapshotCodec \<Rightarrow> bool" where
  "roundTripLaws c \<longleftrightarrow>
     (\<forall>data gzData. gzip c data = Some gzData \<longrightarrow> gunzip c gzData = Some data)
     \<and> (\<forall>doc. \<exists>m. parseEntities c (documentToJson c doc) = Some m
                  \<and> (\<forall>key. rel_option (standsFor c) (m key) (doc key)))"

subsection \<open>A concrete codec for the examples\<close>

text \<open>
  The bytes are a document together with the number of times it has been compressed;
  the parser reads only uncompressed bytes. A variant is a value of the document, an
  entity is a number and its variant the array of that one number. The string form of
  an identifier is that many letters. \<^verbatim>\<open>toInt\<close> keeps the low 32 bits.
\<close>

definition sampleCodec ::
  "(nat jsonValue, nat, nat \<times> (string \<Rightarrow> nat jsonValue option)) snapshotCodec" where
  "sampleCodec =
     \<lparr> uuidToString = (\<lambda>u. replicate (unat u) CHR ''u''),
       variantToUuid = (\<lambda>v. case v of JsonString s \<Rightarrow> of_nat (length s) | _ \<Rightarrow> 0),
       variantToInt = (\<lambda>v. case v of JsonInt64 n \<Rightarrow> ucast n | _ \<Rightarrow> 0),
       variantToList = (\<lambda>v. case v of JsonArray objects \<Rightarrow> map (\<lambda>j. JsonArray [j]) objects
                              | _ \<Rightarrow> []),
       variantToJsonObject = (\<lambda>v. case v of JsonArray [j] \<Rightarrow> j | _ \<Rightarrow> 0),
       invalidVariant = JsonArray [],
       documentToJson = (\<lambda>doc. (0, doc)),
       gzip = (\<lambda>(n, doc). Some (Suc n, doc)),
       gunzip = (\<lambda>(n, doc). case n of 0 \<Rightarrow> None | Suc k \<Rightarrow> Some (k, doc)),
       parseEntities = (\<lambda>(n, doc). if n = 0 then Some doc else None),
       emptyByteArray = (0, Map.empty) \<rparr>"

text \<open>Envelopes with two entities and the given data version.\<close>

definition sampleEnvelope :: "u64 \<Rightarrow> (nat jsonValue, nat) RawEntityData" where
  "sampleEnvelope n =
     \<lparr> idField = 5, dataVersion = n, version = 3, entityData = [],
       variantEntityData = [JsonArray [1], JsonArray [2]] \<rparr>"

text \<open>The envelope that a read starts from.\<close>

definition blankEnvelope :: "(nat jsonValue, nat) RawEntityData" where
  "blankEnvelope =
     \<lparr> idField = 0, dataVersion = 0, version = 0, entityData = [], variantEntityData = [] \<rparr>"

section \<open>A concrete instance for the examples\<close>

text \<open>
  Collaborators with a one-byte packet header whose byte is the packet type, an octree
  that counts the edits and reports a fixed number of bytes per record, a clock that
  advances by 100 per reading, a twelve-byte NACK packet with a two-byte header, zero
  bytes beyond the end of every packet, and a processor that has not seen any packet.
\<close>

definition sampleCollaborators :: "int \<Rightarrow> nat collaborators" where
  "sampleCollaborators bytesPerRecord =
     \<lparr> numBytesForPacketHeader = (\<lambda>_. 1),
       packetTypeForPacket = (\<lambda>packet. case packet of [] \<Rightarrow> 0 | b # _ \<Rightarrow> unat b),
       handlesEditPacketType = (\<lambda>t. t = 7),
       processEditPacketData = (\<lambda>oct t packet at maxSize node. (bytesPerRecord, oct + 1)),
       usecTimestampNow = (\<lambda>n. of_nat (100 * n)),
       isAlive = (\<lambda>u. u \<noteq> 66),
       setOrder = sorted_list_of_set,
       MAX_PACKET_SIZE = 12,
       nackHeader = [9, 9],
       bytesBeyond = (\<lambda>packet i. 0) \<rparr>"

definition sampleProcessor :: "nat processor" where
  "sampleProcessor =
     \<lparr> octree = 0, clockCalls = 0, receivedPacketCount = 0,
       procTotalTransitTime = 0, procTotalProcessTime = 0, procTotalLockWaitTime = 0,
       procTotalElementsInPacket = 0, procTotalPackets = 0, singleSenderStats = [],
       nodePacketCounts = (\<lambda>_. 0), lastHeardMicrostamp = Map.empty,
       DEFAULT_NODE_ID_REF = 0 \<rparr>"

definition samplePacket :: "u16 \<Rightarrow> byte list" where
  "samplePacket q = [7, ucast q, ucast (drop_bit 8 q), 0, 0, 0, 0, 0, 0, 0, 0, 1, 2, 3, 4]"

text \<open>
  A processor that has heard 10 and 13 from the live node 5 and still has one packet of
  that node waiting in its queue.
\<close>

definition pendingProcessor :: "nat processor" where
  "pendingProcessor =
     sampleProcessor
       \<lparr>singleSenderStats := [(5, observeAll newSingleSenderStats (map seqOnly [10, 13]))],
        nodePacketCounts := (\<lambda>u. if u = 5 then 1 else 0)\<rparr>"

text \<open>
  The same with a second live node, 6, behind node 5 in the registry: node 6 has no
  packet waiting and misses 11 and 12.
\<close>

definition blockedProcessor :: "nat processor" where
  "blockedProcessor =
     sampleProcessor
       \<lparr>singleSenderStats :=
          [(5, observeAll newSingleSenderStats (map seqOnly [10, 13])),
           (6, observeAll newSingleSenderStats (map seqOnly [10, 13]))],
        nodePacketCounts := (\<lambda>u. if u = 5 then 1 else 0)\<rparr>"

section \<open>Basic facts about one call\<close>

lemma trackSequence_None_iff:
  "trackSequence s q = None \<longleftrightarrow> unreasonableGap s q"
  by (auto simp: trackSequence_def unreasonableGap_def rolloverCorrect_def Let_def
           split: option.splits if_splits)

lemma trackInboundPacket_rejected:
  "unreasonableGap s q \<Longrightarrow> trackInboundPacket s q t e p l = s"
  using trackSequence_None_iff [of s q] by (simp add: trackInboundPacket_def)

lemma totalPackets_pruneMissing [simp]:
  "totalPackets (pruneMissing s) = totalPackets s"
  by (simp add: pruneMissing_def Let_def)

lemma totalPackets_trackSequence:
  "trackSequence s q = Some s' \<Longrightarrow> totalPackets s' = totalPackets s"
  by (auto simp: trackSequence_def Let_def split: option.splits if_splits prod.splits)

lemma totalPackets_observe:
  "totalPackets (observe s ob) =
     (if unreasonableGap s (obsSequence ob) then totalPackets s else totalPackets s + 1)"
proof (cases "trackSequence s (obsSequence ob)")
  case None
  then have "unreasonableGap s (obsSequence ob)"
    by (simp flip: trackSequence_None_iff)
  with None show ?thesis
    by (simp add: observe_def trackInboundPacket_def)
next
  case (Some s')
  then have "\<not> unreasonableGap s (obsSequence ob)"
    by (simp flip: trackSequence_None_iff)
  with Some show ?thesis
    by (simp add: observe_def trackInboundPacket_def updateOtherStats_def
          totalPackets_trackSequence)
qed

lemma rejectedCalls_le: "rejectedCalls s obs \<le> length obs"
proof (induction obs arbitrary: s)
  case Nil
  then show ?case by simp
next
  case (Cons ob obs)
  from Cons.IH [of "observe s ob"] show ?case by simp
qed

lemma totalPackets_observeAll:
  "totalPackets (observeAll s obs) =
     totalPackets s + of_nat (length obs - rejectedCalls s obs)"
proof (induction obs arbitrary: s)
  case Nil
  then show ?case by (simp add: observeAll_def)
next
  case (Cons ob obs)
  have le: "rejectedCalls (observe s ob) obs \<le> length obs"
    by (rule rejectedCalls_le)
  have "totalPackets (observeAll s (ob # obs)) = totalPackets (observeAll (observe s ob) obs)"
    by (simp add: observeAll_def)
  also have "\<dots> = totalPackets (observe s ob)
                    + of_nat (length obs - rejectedCalls (observe s ob) obs)"
    by (rule Cons.IH)
  also have "\<dots> = totalPackets s + of_nat (length (ob # obs) - rejectedCalls s (ob # obs))"
    using le by (simp add: totalPackets_observe Suc_diff_le)
  finally show ?case .
qed

section \<open>Scenarios and counters\<close>

text \<open>
  C5. On a fresh tracker, observing sequence 65534 and then sequence 1 (with any
  measurements) takes the rollover branch on the second call: the absolute gap between
  the incoming 1 and the expected 65535 is at least
  \<open>UINT16_RANGE - MAX_REASONABLE_SEQUENCE_GAP\<close>, the expected value is corrected to
  \<open>-1\<close>, and the run ends with last sequence 1 and missing set \<open>{65535, 0}\<close>.
\<close>

theorem rollover_early_scenario:
  "\<bar>uint (1 :: u16)
      - uint (expectedSequence
               (observe newSingleSenderStats
                  \<lparr>obsSequence = 65534, obsTransitTime = t1, obsEdits = e1,
                   obsProcessTime = p1, obsLockWaitTime = l1\<rparr>) 1)\<bar>
     \<ge> UINT16_RANGE - MAX_REASONABLE_SEQUENCE_GAP
   \<and> rolloverCorrect (uint (1 :: u16))
        (uint (expectedSequence
               (observe newSingleSenderStats
                  \<lparr>obsSequence = 65534, obsTransitTime = t1, obsEdits = e1,
                   obsProcessTime = p1, obsLockWaitTime = l1\<rparr>) 1)) = Some (1, - 1)
   \<and> incomingLastSequence
        (observeAll newSingleSenderStats
           [\<lparr>obsSequence = 65534, obsTransitTime = t1, obsEdits = e1,
             obsProcessTime = p1, obsLockWaitTime = l1\<rparr>,
            \<lparr>obsSequence = 1, obsTransitTime = t2, obsEdits = e2,
             obsProcessTime = p2, obsLockWaitTime = l2\<rparr>]) = 1
   \<and> missingSequenceNumbers
        (observeAll newSingleSenderStats
           [\<lparr>obsSequence = 65534, obsTransitTime = t1, obsEdits = e1,
             obsProcessTime = p1, obsLockWaitTime = l1\<rparr>,
            \<lparr>obsSequence = 1, obsTransitTime = t2, obsEdits = e2,
             obsProcessTime = p2, obsLockWaitTime = l2\<rparr>]) = {65535, 0}"
  by (simp add: observeAll_def observe_def trackInboundPacket_def trackSequence_def
        expectedSequence_def rolloverCorrect_def pruneMissing_def updateOtherStats_def
        newSingleSenderStats_def insertSkipped.simps UINT16_RANGE_def
        MAX_REASONABLE_SEQUENCE_GAP_def MAX_MISSING_SEQUENCE_SIZE_def Let_def
        insert_commute)

text \<open>
  C4. For every run of observe calls on a fresh tracker, the final
  \<^verbatim>\<open>_totalPackets\<close> is the number of calls minus the number of calls that were
  rejected for an unreasonable gap, as a 64-bit counter; for a run of fewer than
  \<open>2^64\<close> calls the counter read as a number is exactly that difference.
\<close>

theorem totalPackets_counts_accepted:
  "totalPackets (observeAll newSingleSenderStats obs)
     = of_nat (length obs - rejectedCalls newSingleSenderStats obs)
   \<and> (length obs < 2 ^ 64 \<longrightarrow>
        unat (totalPackets (observeAll newSingleSenderStats obs))
          = length obs - rejectedCalls newSingleSenderStats obs)"
proof -
  have eq: "totalPackets (observeAll newSingleSenderStats obs)
              = of_nat (length obs - rejectedCalls newSingleSenderStats obs)"
    using totalPackets_observeAll [of newSingleSenderStats obs]
    by (simp add: newSingleSenderStats_def)
  have "unat (of_nat (length obs - rejectedCalls newSingleSenderStats obs) :: u64)
          = length obs - rejectedCalls newSingleSenderStats obs"
    if "length obs < 2 ^ 64"
  proof -
    have "length obs - rejectedCalls newSingleSenderStats obs < 2 ^ 64"
      using that by arith
    then show ?thesis
      by (simp add: unat_of_nat)
  qed
  with eq show ?thesis by simp
qed

theorem totalPackets_counts_accepted_witness:
  "length (map seqOnly [100, 5000, 101]) < 2 ^ 64
   \<and> rejectedCalls newSingleSenderStats (map seqOnly [100, 5000, 101]) = 1
   \<and> unat (totalPackets (observeAll newSingleSenderStats (map seqOnly [100, 5000, 101]))) = 2"
proof -
  let ?obs = "map seqOnly [100, 5000, 101]"
  have r: "rejectedCalls newSingleSenderStats ?obs = 1"
    by code_simp
  have l: "length ?obs < 2 ^ 64"
    by simp
  have "unat (totalPackets (observeAll newSingleSenderStats ?obs))
          = length ?obs - rejectedCalls newSingleSenderStats ?obs"
    using totalPackets_counts_accepted [of ?obs] l by blast
  also have "\<dots> = 2"
    unfolding r by simp
  finally show ?thesis
    using l r by blast
qed
section \<open>Sixteen-bit arithmetic\<close>


lemma uint_word_of_int_u16:
  "0 \<le> k \<Longrightarrow> k < 65536 \<Longrightarrow> uint (word_of_int k :: u16) = k"
  by (simp add: uint_word_of_int)

lemma uint_u16_bounds: "0 \<le> uint (x :: u16) \<and> uint x < 65536"
  using uint_lt2p [of x] by simp

lemma sint_u16_bounds: "- 32768 \<le> sint (x :: u16) \<and> sint x < 32768"
  using sint_ge [of x] sint_lt [of x] by simp

lemma sint_word_of_int_u16:
  "- 32768 \<le> k \<Longrightarrow> k < 32768 \<Longrightarrow> sint (word_of_int k :: u16) = k"
  by (simp add: signed_of_int signed_take_bit_int_eq_self)

lemma word_of_int_sint_u16: "word_of_int (sint (x :: u16)) = x"
  by simp

lemma uint_plus_word_of_int_u16:
  "uint (x + word_of_int k :: u16) = (uint x + k) mod 65536"
  by (simp add: uint_word_ariths uint_word_of_int mod_add_right_eq)

lemma word_of_int_shift_u16: "(word_of_int (m + 65536) :: u16) = word_of_int m"
  by simp

lemma seqOffset_bounds: "- 32768 \<le> seqOffset f x \<and> seqOffset f x < 32768"
  unfolding seqOffset_def by (rule sint_u16_bounds)

lemma seqOffset_repr: "x = f + word_of_int (seqOffset f x)"
  by (simp add: seqOffset_def)

lemma seqOffset_plus:
  "- 32768 \<le> k \<Longrightarrow> k < 32768 \<Longrightarrow> seqOffset f (f + word_of_int k) = k"
  by (simp add: seqOffset_def sint_word_of_int_u16)

lemma seqOffset_self [simp]: "seqOffset f f = 0"
  by (simp add: seqOffset_def)

lemma seqOffset_inj: "seqOffset f x = seqOffset f y \<Longrightarrow> x = y"
  using seqOffset_repr [of x f] seqOffset_repr [of y f] by simp

lemma seqOffset_eq_iff:
  "- 32768 \<le> k \<Longrightarrow> k < 32768 \<Longrightarrow> seqOffset f x = k \<longleftrightarrow> x = f + word_of_int k"
  using seqOffset_repr [of x f] seqOffset_plus [of k f] by auto

lemma seqOffset_diff:
  assumes "\<bar>seqOffset f x\<bar> \<le> 1000" "\<bar>seqOffset f y\<bar> \<le> 1000"
  shows "sint (x - y) = seqOffset f x - seqOffset f y"
proof -
  have "x - y = (f + word_of_int (seqOffset f x)) - (f + word_of_int (seqOffset f y))"
    using seqOffset_repr [of x f] seqOffset_repr [of y f] by simp
  also have "\<dots> = word_of_int (seqOffset f x - seqOffset f y)"
    by simp
  finally have "sint (x - y) = sint (word_of_int (seqOffset f x - seqOffset f y) :: u16)"
    by simp
  also have "\<dots> = seqOffset f x - seqOffset f y"
    using assms by (intro sint_word_of_int_u16) linarith+
  finally show ?thesis .
qed

lemma mod_65536_cases:
  fixes a :: int
  assumes "- 65536 \<le> a" "a < 131072"
  shows "a mod 65536 = a \<or> a mod 65536 = a + 65536 \<or> a mod 65536 = a - 65536"
proof -
  consider "a < 0" | "0 \<le> a \<and> a < 65536" | "65536 \<le> a" by linarith
  then show ?thesis
  proof cases
    case 1
    have "a mod 65536 = (a + 65536) mod 65536" by simp
    also have "\<dots> = a + 65536"
      using 1 assms by (intro mod_pos_pos_trivial) linarith+
    finally show ?thesis by simp
  next
    case 2
    then show ?thesis by simp
  next
    case 3
    have "a mod 65536 = (a - 65536) mod 65536" by simp
    also have "\<dots> = a - 65536"
      using 3 assms by (intro mod_pos_pos_trivial) linarith+
    finally show ?thesis by simp
  qed
qed

lemma raw_gap_cases:
  fixes q e :: u16
  assumes "q = e + word_of_int g" "\<bar>g\<bar> \<le> 1001"
  shows "uint q - uint e = g \<or> uint q - uint e = g + 65536 \<or> uint q - uint e = g - 65536"
proof -
  have "uint q = (uint e + g) mod 65536"
    unfolding assms(1) by (rule uint_plus_word_of_int_u16)
  moreover have "(uint e + g) mod 65536 = uint e + g
      \<or> (uint e + g) mod 65536 = uint e + g + 65536
      \<or> (uint e + g) mod 65536 = uint e + g - 65536"
    using uint_u16_bounds [of e] assms(2) by (intro mod_65536_cases) linarith+
  ultimately show ?thesis
    by linarith
qed

lemma insertSkipped_eq:
  "insertSkipped a b S = S \<union> word_of_int ` {a..<b}"
proof (induction a b S rule: insertSkipped.induct)
  case (1 m i S)
  show ?case
  proof (cases "m < i")
    case True
    have split: "{m..<i} = insert m {m + 1..<i}"
      using True by auto
    have w: "(word_of_int (if m < 0 then m + UINT16_RANGE else m) :: u16) = word_of_int m"
      by (simp add: UINT16_RANGE_def)
    show ?thesis
      using True 1 [OF True]
      by (subst insertSkipped.simps) (simp only: w split if_True image_insert Un_insert_left Un_insert_right)
  next
    case False
    then show ?thesis
      by (subst insertSkipped.simps) simp
  qed
qed

lemma rolloverCorrect_reasonable:
  fixes q e :: u16
  assumes "q = e + word_of_int g" "g \<noteq> 0" "\<bar>g\<bar> \<le> 1000"
  shows "\<exists>i' e'. rolloverCorrect (uint q) (uint e) = Some (i', e') \<and> i' - e' = g
                   \<and> (word_of_int e' :: u16) = e"
proof -
  have we: "(word_of_int (uint e) :: u16) = e" by simp
  have we': "(word_of_int (uint e - 65536) :: u16) = e" by simp
  from raw_gap_cases [OF assms(1)] assms(3)
  consider "uint q - uint e = g" | "uint q - uint e = g + 65536" | "uint q - uint e = g - 65536"
    by linarith
  then show ?thesis
  proof cases
    case 1
    then have "rolloverCorrect (uint q) (uint e) = Some (uint q, uint e)"
      using assms(2,3)
      by (simp add: rolloverCorrect_def Let_def UINT16_RANGE_def MAX_REASONABLE_SEQUENCE_GAP_def)
    with 1 we show ?thesis by blast
  next
    case 2
    then have "rolloverCorrect (uint q) (uint e) = Some (uint q - UINT16_RANGE, uint e)"
      using assms(2,3) uint_u16_bounds [of e] uint_u16_bounds [of q]
      by (simp add: rolloverCorrect_def Let_def UINT16_RANGE_def MAX_REASONABLE_SEQUENCE_GAP_def)
    moreover have "uint q - UINT16_RANGE - uint e = g"
      using 2 by (simp add: UINT16_RANGE_def)
    ultimately show ?thesis using we by blast
  next
    case 3
    then have "rolloverCorrect (uint q) (uint e) = Some (uint q, uint e - UINT16_RANGE)"
      using assms(2,3) uint_u16_bounds [of e] uint_u16_bounds [of q]
      by (simp add: rolloverCorrect_def Let_def UINT16_RANGE_def MAX_REASONABLE_SEQUENCE_GAP_def)
    moreover have "uint q - (uint e - UINT16_RANGE) = g"
      using 3 by (simp add: UINT16_RANGE_def)
    moreover have "(word_of_int (uint e - UINT16_RANGE) :: u16) = e"
      using we' by (simp add: UINT16_RANGE_def)
    ultimately show ?thesis by blast
  qed
qed

lemma rolloverCorrect_unreasonable:
  fixes q e :: u16
  assumes "q = e + word_of_int g" "g = - 1001"
  shows "rolloverCorrect (uint q) (uint e) = None"
proof -
  from raw_gap_cases [OF assms(1)] assms(2)
  have "uint q - uint e = - 1001 \<or> uint q - uint e = 64535 \<or> uint q - uint e = - 66537"
    by simp
  moreover have "uint q - uint e > - 65536"
    using uint_u16_bounds [of e] uint_u16_bounds [of q] by linarith
  ultimately have "\<bar>uint q - uint e\<bar> = 1001 \<or> \<bar>uint q - uint e\<bar> = 64535"
    by linarith
  then show ?thesis
    by (auto simp: rolloverCorrect_def Let_def UINT16_RANGE_def MAX_REASONABLE_SEQUENCE_GAP_def)
qed

lemma skipped_image_eq:
  fixes f e :: u16
  assumes e: "e = f + word_of_int (L + 1)" and we: "(word_of_int e' :: u16) = e"
    and L: "0 \<le> L" and d: "d \<le> 1000"
  shows "(word_of_int ` {e'..<e' + (d - (L + 1))} :: u16 set)
           = {m. L < seqOffset f m \<and> seqOffset f m < d}"
proof (intro set_eqI iffI)
  fix m :: u16
  assume "m \<in> word_of_int ` {e'..<e' + (d - (L + 1))}"
  then obtain n where n: "e' \<le> n" "n < e' + (d - (L + 1))" "m = word_of_int n"
    by auto
  have "m = word_of_int e' + word_of_int (n - e')"
    using n(3) by simp
  also have "\<dots> = f + word_of_int (L + 1 + (n - e'))"
    unfolding we e by simp
  finally have "seqOffset f m = L + 1 + (n - e')"
    using n(1,2) L d by (simp only:) (intro seqOffset_plus; linarith)
  then show "m \<in> {m. L < seqOffset f m \<and> seqOffset f m < d}"
    using n(1,2) by simp
next
  fix m :: u16
  assume "m \<in> {m. L < seqOffset f m \<and> seqOffset f m < d}"
  then have m: "L < seqOffset f m" "seqOffset f m < d" by simp_all
  let ?n = "e' + (seqOffset f m - (L + 1))"
  have "m = f + word_of_int (seqOffset f m)"
    by (rule seqOffset_repr)
  also have "\<dots> = e + word_of_int (seqOffset f m - (L + 1))"
    unfolding e by simp
  also have "\<dots> = word_of_int ?n"
    unfolding we [symmetric] by simp
  finally have "m = word_of_int ?n" .
  moreover have "?n \<in> {e'..<e' + (d - (L + 1))}"
    using m by simp
  ultimately show "m \<in> word_of_int ` {e'..<e' + (d - (L + 1))}"
    by (rule image_eqI)
qed

lemma expected_repr:
  assumes "totalPackets s \<noteq> 0"
  shows "expectedSequence s q
           = f + word_of_int (seqOffset f (incomingLastSequence s) + 1)"
proof -
  have "expectedSequence s q = incomingLastSequence s + 1"
    using assms by (simp add: expectedSequence_def)
  also have "\<dots> = (f + word_of_int (seqOffset f (incomingLastSequence s))) + 1"
    using seqOffset_repr [of "incomingLastSequence s" f] by simp
  finally show ?thesis by simp
qed

lemma incoming_from_expected:
  assumes "totalPackets s \<noteq> 0"
  shows "q = expectedSequence s q
           + word_of_int (seqOffset f q - (seqOffset f (incomingLastSequence s) + 1))"
proof -
  have "q = f + word_of_int (seqOffset f q)"
    by (rule seqOffset_repr)
  then show ?thesis
    unfolding expected_repr [OF assms, of q f] by simp
qed

lemma trackSequence_on_time:
  assumes "totalPackets s \<noteq> 0"
    and "seqOffset f q = seqOffset f (incomingLastSequence s) + 1"
  shows "trackSequence s q = Some (s\<lparr>incomingLastSequence := q\<rparr>)"
proof -
  have "q = expectedSequence s q"
    using incoming_from_expected [OF assms(1), of q f] assms(2) by simp
  then show ?thesis
    by (simp add: trackSequence_def Let_def)
qed

lemma trackSequence_out_of_order:
  assumes "totalPackets s \<noteq> 0"
    and "seqOffset f (incomingLastSequence s) \<le> 1000"
    and "seqOffset f q \<noteq> seqOffset f (incomingLastSequence s) + 1"
  shows "trackSequence s q =
     (case rolloverCorrect (uint q) (uint (expectedSequence s q)) of
           None \<Rightarrow> None
         | Some (incoming, expected) \<Rightarrow>
             if incoming > expected then
               Some (s\<lparr>missingSequenceNumbers :=
                           insertSkipped expected incoming (missingSequenceNumbers s),
                       incomingLastSequence := q\<rparr>)
             else
               Some (s\<lparr>missingSequenceNumbers := missingSequenceNumbers s - {q}\<rparr>))"
proof -
  have "q \<noteq> expectedSequence s q"
  proof
    assume "q = expectedSequence s q"
    then have "q = f + word_of_int (seqOffset f (incomingLastSequence s) + 1)"
      using expected_repr [OF assms(1), of q f] by simp
    then have "seqOffset f q = seqOffset f (incomingLastSequence s) + 1"
      using assms(2) seqOffset_bounds [of f "incomingLastSequence s"]
      by (simp only:) (intro seqOffset_plus; linarith)
    with assms(3) show False by simp
  qed
  then show ?thesis
    by (simp add: trackSequence_def Let_def)
qed

lemma trackSequence_rejected:
  assumes "totalPackets s \<noteq> 0"
    and "seqOffset f (incomingLastSequence s) \<le> 1000"
    and "seqOffset f q = seqOffset f (incomingLastSequence s) - 1000"
  shows "trackSequence s q = None"
proof -
  have "rolloverCorrect (uint q) (uint (expectedSequence s q)) = None"
    using incoming_from_expected [OF assms(1), of q f] assms(3)
    by (intro rolloverCorrect_unreasonable) simp_all
  moreover have "seqOffset f q \<noteq> seqOffset f (incomingLastSequence s) + 1"
    using assms(3) by simp
  ultimately show ?thesis
    using trackSequence_out_of_order [OF assms(1,2)] by simp
qed

lemma trackSequence_early:
  assumes "totalPackets s \<noteq> 0"
    and "0 \<le> seqOffset f (incomingLastSequence s)"
    and "seqOffset f (incomingLastSequence s) + 1 < seqOffset f q"
    and "seqOffset f q \<le> 1000"
  shows "trackSequence s q =
           Some (s\<lparr>missingSequenceNumbers :=
                     missingSequenceNumbers s
                       \<union> {m. seqOffset f (incomingLastSequence s) < seqOffset f m
                              \<and> seqOffset f m < seqOffset f q},
                   incomingLastSequence := q\<rparr>)"
proof -
  let ?L = "seqOffset f (incomingLastSequence s)"
  let ?g = "seqOffset f q - (?L + 1)"
  have L: "?L \<le> 1000" using assms(3,4) by linarith
  have g0: "?g \<noteq> 0" "\<bar>?g\<bar> \<le> 1000" using assms(2,3,4) by linarith+
  obtain i' e' where r: "rolloverCorrect (uint q) (uint (expectedSequence s q)) = Some (i', e')"
      and g: "i' - e' = ?g" and we: "(word_of_int e' :: u16) = expectedSequence s q"
    using rolloverCorrect_reasonable [OF incoming_from_expected [OF assms(1), of q f] g0]
    by blast
  have i': "i' = e' + ?g" using g by linarith
  have "insertSkipped e' i' (missingSequenceNumbers s)
          = missingSequenceNumbers s \<union> {m. ?L < seqOffset f m \<and> seqOffset f m < seqOffset f q}"
    unfolding insertSkipped_eq i'
    using skipped_image_eq [OF expected_repr [OF assms(1), of q f] we assms(2,4)] by simp
  moreover have "i' > e'" using g assms(3) by linarith
  moreover have "seqOffset f q \<noteq> ?L + 1" using assms(3) by simp
  ultimately show ?thesis
    using trackSequence_out_of_order [OF assms(1) L] r by simp
qed

lemma trackSequence_late:
  assumes "totalPackets s \<noteq> 0"
    and "seqOffset f (incomingLastSequence s) \<le> 1000"
    and "seqOffset f q < seqOffset f (incomingLastSequence s) + 1"
    and "seqOffset f (incomingLastSequence s) - 1000 < seqOffset f q"
  shows "trackSequence s q =
           Some (s\<lparr>missingSequenceNumbers := missingSequenceNumbers s - {q}\<rparr>)"
proof -
  let ?L = "seqOffset f (incomingLastSequence s)"
  let ?g = "seqOffset f q - (?L + 1)"
  have g0: "?g \<noteq> 0" "\<bar>?g\<bar> \<le> 1000" using assms(3,4) by linarith+
  obtain i' e' where r: "rolloverCorrect (uint q) (uint (expectedSequence s q)) = Some (i', e')"
      and g: "i' - e' = ?g"
    using rolloverCorrect_reasonable [OF incoming_from_expected [OF assms(1), of q f] g0]
    by blast
  have "\<not> i' > e'" using g assms(3) by linarith
  moreover have "seqOffset f q \<noteq> ?L + 1" using assms(3) by simp
  ultimately show ?thesis
    using trackSequence_out_of_order [OF assms(1,2)] r by simp
qed

section \<open>Pruning and the size of the missing set\<close>


lemma card_word_le_uint_image:
  fixes S :: "u16 set"
  assumes "uint ` S \<subseteq> T" "finite T"
  shows "card S \<le> card T"
proof -
  have "card S = card (uint ` S)"
    by (rule card_image [symmetric]) (auto simp: inj_on_def word_uint_eq_iff)
  also have "\<dots> \<le> card T"
    using assms by (intro card_mono) auto
  finally show ?thesis .
qed

lemma pruneMissing_nonrollover:
  assumes "int (card (missingSequenceNumbers s)) > MAX_MISSING_SEQUENCE_SIZE"
    and "uint (incomingLastSequence s) - MAX_REASONABLE_SEQUENCE_GAP \<ge> 0"
    and "co = (word_of_int (uint (incomingLastSequence s) - MAX_REASONABLE_SEQUENCE_GAP) :: u16)"
  shows "missingSequenceNumbers (pruneMissing s)
           = {m \<in> missingSequenceNumbers s. \<not> (m > incomingLastSequence s \<or> m \<le> co)}"
  using assms by (auto simp: pruneMissing_def Let_def)

lemma pruneMissing_rollover:
  assumes "int (card (missingSequenceNumbers s)) > MAX_MISSING_SEQUENCE_SIZE"
    and "\<not> uint (incomingLastSequence s) - MAX_REASONABLE_SEQUENCE_GAP \<ge> 0"
    and "co = (word_of_int (uint (incomingLastSequence s) - MAX_REASONABLE_SEQUENCE_GAP
                               + UINT16_RANGE) :: u16)"
  shows "missingSequenceNumbers (pruneMissing s)
           = {m \<in> missingSequenceNumbers s. \<not> (m > incomingLastSequence s \<and> m \<le> co)}"
  using assms by (auto simp: pruneMissing_def Let_def)

lemma card_pruned_window:
  assumes big: "int (card (missingSequenceNumbers s)) > MAX_MISSING_SEQUENCE_SIZE"
  shows "card (missingSequenceNumbers (pruneMissing s)) \<le> 1000"
proof (cases "uint (incomingLastSequence s) - MAX_REASONABLE_SEQUENCE_GAP \<ge> 0")
  case True
  let ?l = "uint (incomingLastSequence s)"
  define co :: u16 where "co = word_of_int (?l - MAX_REASONABLE_SEQUENCE_GAP)"
  let ?K = "{m \<in> missingSequenceNumbers s. \<not> (m > incomingLastSequence s \<or> m \<le> co)}"
  have eq: "missingSequenceNumbers (pruneMissing s) = ?K"
    using big True co_def by (rule pruneMissing_nonrollover)
  have c: "uint co = ?l - MAX_REASONABLE_SEQUENCE_GAP"
    unfolding co_def using True uint_lt2p [of "incomingLastSequence s"]
    by (intro uint_word_of_int_u16) (simp_all add: MAX_REASONABLE_SEQUENCE_GAP_def)
  have "uint ` ?K \<subseteq> {?l - 999 .. ?l}"
    by (auto simp: word_le_def word_less_def not_le not_less c MAX_REASONABLE_SEQUENCE_GAP_def)
  then have "card ?K \<le> card {?l - 999 .. ?l}"
    by (rule card_word_le_uint_image) simp
  then show ?thesis
    unfolding eq by simp
next
  case False
  let ?l = "uint (incomingLastSequence s)"
  define co :: u16
    where "co = word_of_int (?l - MAX_REASONABLE_SEQUENCE_GAP + UINT16_RANGE)"
  let ?K = "{m \<in> missingSequenceNumbers s. \<not> (m > incomingLastSequence s \<and> m \<le> co)}"
  have eq: "missingSequenceNumbers (pruneMissing s) = ?K"
    using big False co_def by (rule pruneMissing_rollover)
  have l0: "0 \<le> ?l" by simp
  have c: "uint co = ?l - MAX_REASONABLE_SEQUENCE_GAP + UINT16_RANGE"
    unfolding co_def using False l0
    by (intro uint_word_of_int_u16)
       (simp_all add: MAX_REASONABLE_SEQUENCE_GAP_def UINT16_RANGE_def)
  have "uint ` ?K \<subseteq> {0 .. ?l} \<union> {?l + 64537 .. 65535}"
  proof
    fix x assume "x \<in> uint ` ?K"
    then obtain m where m: "m \<in> ?K" "x = uint m" by blast
    have "uint m < 65536" using uint_lt2p [of m] by simp
    moreover have "0 \<le> uint m" by simp
    moreover have "uint m \<le> ?l \<or> uint m > ?l + 64536"
      using m(1)
      by (auto simp: word_le_def word_less_def not_le not_less c
            MAX_REASONABLE_SEQUENCE_GAP_def UINT16_RANGE_def)
    ultimately show "x \<in> {0 .. ?l} \<union> {?l + 64537 .. 65535}"
      using m(2) by auto
  qed
  then have "card ?K \<le> card ({0 .. ?l} \<union> {?l + 64537 .. 65535})"
    by (rule card_word_le_uint_image) simp
  also have "\<dots> \<le> card {0 .. ?l} + card {?l + 64537 .. 65535}"
    by (rule card_Un_le)
  also have "\<dots> = nat (?l + 1) + nat (999 - ?l)"
    by simp
  also have "\<dots> \<le> 1000"
    using False l0 unfolding MAX_REASONABLE_SEQUENCE_GAP_def by arith
  finally show ?thesis
    unfolding eq .
qed

lemma card_pruneMissing: "card (missingSequenceNumbers (pruneMissing s)) \<le> 1000"
proof (cases "int (card (missingSequenceNumbers s)) > MAX_MISSING_SEQUENCE_SIZE")
  case True
  then show ?thesis by (rule card_pruned_window)
next
  case False
  then show ?thesis
    by (simp add: pruneMissing_def MAX_MISSING_SEQUENCE_SIZE_def)
qed

lemma missing_updateOtherStats [simp]:
  "missingSequenceNumbers (updateOtherStats s t e p l) = missingSequenceNumbers s"
  by (simp add: updateOtherStats_def)

lemma card_missing_observe:
  assumes "card (missingSequenceNumbers s) \<le> 1000"
  shows "card (missingSequenceNumbers (observe s ob)) \<le> 1000"
  using assms card_pruneMissing
  by (simp add: observe_def trackInboundPacket_def split: option.splits)

lemma card_missing_observeAll:
  "card (missingSequenceNumbers s) \<le> 1000 \<Longrightarrow>
   card (missingSequenceNumbers (observeAll s obs)) \<le> 1000"
  unfolding observeAll_def
  by (induction obs arbitrary: s) (simp_all add: card_missing_observe)

lemma uint_window_cases:
  fixes lastSeq m :: u16
  shows "(uint m \<le> uint lastSeq \<and> uint (lastSeq - m) = uint lastSeq - uint m)
         \<or> (uint lastSeq < uint m \<and> uint (lastSeq - m) = uint lastSeq - uint m + 65536)"
  using uint_sub_if' [of lastSeq m] by (auto split: if_splits)

lemma window_int_nonrollover:
  fixes l um d c :: int
  assumes "0 \<le> um" "um < 65536" "0 \<le> l" "l < 65536" "c = l - 1000" "0 \<le> c"
    and "(um \<le> l \<and> d = l - um) \<or> (l < um \<and> d = l - um + 65536)"
  shows "(\<not> (l < um \<or> um \<le> c)) = (d < 1000)"
  using assms by auto

lemma window_int_rollover:
  fixes l um d c :: int
  assumes "0 \<le> um" "um < 65536" "0 \<le> l" "l < 65536" "c = l - 1000 + 65536"
    and "\<not> l - 1000 \<ge> 0"
    and "(um \<le> l \<and> d = l - um) \<or> (l < um \<and> d = l - um + 65536)"
  shows "(\<not> (l < um \<and> um \<le> c)) = (d < 1000)"
  using assms by auto

lemma window_nonrollover:
  fixes lastSeq m co :: u16
  assumes "uint co = uint lastSeq - MAX_REASONABLE_SEQUENCE_GAP"
  shows "\<not> (m > lastSeq \<or> m \<le> co) \<longleftrightarrow> withinWindow lastSeq m"
proof -
  have b: "0 \<le> uint m" "uint m < 65536" "0 \<le> uint lastSeq" "uint lastSeq < 65536"
    using uint_u16_bounds [of m] uint_u16_bounds [of lastSeq] by simp_all
  have c: "uint co = uint lastSeq - 1000"
    using assms by (simp add: MAX_REASONABLE_SEQUENCE_GAP_def)
  show ?thesis
    unfolding withinWindow_def word_le_def word_less_def MAX_REASONABLE_SEQUENCE_GAP_def
    by (rule window_int_nonrollover [OF b c uint_ge_0 uint_window_cases])
qed

lemma window_rollover:
  fixes lastSeq m co :: u16
  assumes "uint co = uint lastSeq - MAX_REASONABLE_SEQUENCE_GAP + UINT16_RANGE"
    and "\<not> uint lastSeq - MAX_REASONABLE_SEQUENCE_GAP \<ge> 0"
  shows "\<not> (m > lastSeq \<and> m \<le> co) \<longleftrightarrow> withinWindow lastSeq m"
proof -
  have b: "0 \<le> uint m" "uint m < 65536" "0 \<le> uint lastSeq" "uint lastSeq < 65536"
    using uint_u16_bounds [of m] uint_u16_bounds [of lastSeq] by simp_all
  have c: "uint co = uint lastSeq - 1000 + 65536"
    using assms(1) by (simp add: MAX_REASONABLE_SEQUENCE_GAP_def UINT16_RANGE_def)
  have n: "\<not> uint lastSeq - 1000 \<ge> 0"
    using assms(2) by (simp add: MAX_REASONABLE_SEQUENCE_GAP_def)
  show ?thesis
    unfolding withinWindow_def word_le_def word_less_def MAX_REASONABLE_SEQUENCE_GAP_def
    by (rule window_int_rollover [OF b c n uint_window_cases])
qed

lemma pruneMissing_window:
  assumes big: "int (card (missingSequenceNumbers s)) > MAX_MISSING_SEQUENCE_SIZE"
  shows "missingSequenceNumbers (pruneMissing s)
           = {m \<in> missingSequenceNumbers s. withinWindow (incomingLastSequence s) m}"
proof (cases "uint (incomingLastSequence s) - MAX_REASONABLE_SEQUENCE_GAP \<ge> 0")
  case True
  let ?l = "uint (incomingLastSequence s)"
  define co :: u16 where "co = word_of_int (?l - MAX_REASONABLE_SEQUENCE_GAP)"
  have c: "uint co = ?l - MAX_REASONABLE_SEQUENCE_GAP"
    unfolding co_def using True uint_u16_bounds [of "incomingLastSequence s"]
    by (intro uint_word_of_int_u16) (simp_all add: MAX_REASONABLE_SEQUENCE_GAP_def)
  show ?thesis
    unfolding pruneMissing_nonrollover [OF big True co_def] window_nonrollover [OF c] ..
next
  case False
  let ?l = "uint (incomingLastSequence s)"
  define co :: u16
    where "co = word_of_int (?l - MAX_REASONABLE_SEQUENCE_GAP + UINT16_RANGE)"
  have c: "uint co = ?l - MAX_REASONABLE_SEQUENCE_GAP + UINT16_RANGE"
    unfolding co_def using False uint_u16_bounds [of "incomingLastSequence s"]
    by (intro uint_word_of_int_u16)
       (simp_all add: MAX_REASONABLE_SEQUENCE_GAP_def UINT16_RANGE_def)
  show ?thesis
    unfolding pruneMissing_rollover [OF big False co_def] window_rollover [OF c False] ..
qed

lemma pruneMissing_other_fields:
  "pruneMissing s = s\<lparr>missingSequenceNumbers := missingSequenceNumbers (pruneMissing s)\<rparr>"
  by (simp add: pruneMissing_def Let_def)

text \<open>
  C2 (amended). For every run of observe calls on a fresh tracker, when the last call
  returns the missing set has at most \<open>MAX_REASONABLE_SEQUENCE_GAP\<close> (1000) elements.
  The pruning block of a call leaves a missing set of at most
  \<open>MAX_MISSING_SEQUENCE_SIZE\<close> (100) elements as it is; a larger one it cuts down to
  exactly its numbers inside the window of the last 1000 sequence numbers up to the last
  sequence, and changes nothing else. A call that is not rejected ends with the missing
  set that the pruning block leaves; a rejected call does not touch the set.
\<close>

theorem pruning_keeps_window:
  "card (missingSequenceNumbers (observeAll newSingleSenderStats obs)) \<le> 1000
   \<and> pruneMissing s =
       (if int (card (missingSequenceNumbers s)) > MAX_MISSING_SEQUENCE_SIZE
        then s\<lparr>missingSequenceNumbers :=
                 {m \<in> missingSequenceNumbers s. withinWindow (incomingLastSequence s) m}\<rparr>
        else s)
   \<and> missingSequenceNumbers (observe s ob) =
       (case trackSequence s (obsSequence ob) of
          None \<Rightarrow> missingSequenceNumbers s
        | Some s' \<Rightarrow> missingSequenceNumbers (pruneMissing s'))"
proof -
  have bound: "card (missingSequenceNumbers (observeAll newSingleSenderStats obs)) \<le> 1000"
    by (rule card_missing_observeAll) (simp add: newSingleSenderStats_def)
  have prune: "pruneMissing s =
       (if int (card (missingSequenceNumbers s)) > MAX_MISSING_SEQUENCE_SIZE
        then s\<lparr>missingSequenceNumbers :=
                 {m \<in> missingSequenceNumbers s. withinWindow (incomingLastSequence s) m}\<rparr>
        else s)"
  proof (cases "int (card (missingSequenceNumbers s)) > MAX_MISSING_SEQUENCE_SIZE")
    case True
    show ?thesis
      using True pruneMissing_other_fields [of s]
      unfolding pruneMissing_window [OF True] by simp
  next
    case False
    then show ?thesis
      by (simp add: pruneMissing_def)
  qed
  have call: "missingSequenceNumbers (observe s ob) =
       (case trackSequence s (obsSequence ob) of
          None \<Rightarrow> missingSequenceNumbers s
        | Some s' \<Rightarrow> missingSequenceNumbers (pruneMissing s'))"
    by (simp add: observe_def trackInboundPacket_def split: option.splits)
  from bound prune call show ?thesis
    by (intro conjI)
qed

text \<open>
  After 0 and 102 the tracker misses 101 numbers, so the pruning block runs on it.
\<close>

theorem pruning_keeps_window_witness:
  "int (card (missingSequenceNumbers (observeAll newSingleSenderStats (map seqOnly [0, 102]))))
     > MAX_MISSING_SEQUENCE_SIZE
   \<and> missingSequenceNumbers
        (pruneMissing (observeAll newSingleSenderStats (map seqOnly [0, 102])))
      = {m \<in> missingSequenceNumbers (observeAll newSingleSenderStats (map seqOnly [0, 102])).
           withinWindow
             (incomingLastSequence (observeAll newSingleSenderStats (map seqOnly [0, 102]))) m}"
proof -
  let ?s = "observeAll newSingleSenderStats (map seqOnly [0, 102])"
  have big: "int (card (missingSequenceNumbers ?s)) > MAX_MISSING_SEQUENCE_SIZE"
    by code_simp
  from pruning_keeps_window [of "[]" ?s] big
  have "pruneMissing ?s =
          ?s\<lparr>missingSequenceNumbers :=
                 {m \<in> missingSequenceNumbers ?s. withinWindow (incomingLastSequence ?s) m}\<rparr>"
    by simp
  from arg_cong [OF this, of missingSequenceNumbers]
  have "missingSequenceNumbers (pruneMissing ?s)
               = {m \<in> missingSequenceNumbers ?s. withinWindow (incomingLastSequence ?s) m}"
    by simp
  with big show ?thesis
    by simp
qed

text \<open>
  C2 as stated fails: after observing 0 and then 102 the missing set is \<open>{1, \<dots>, 101}\<close>;
  it has 101 elements, the pruning block runs and removes none of them.
\<close>

theorem missing_bound_100_counterexample:
  "\<not> card (missingSequenceNumbers
             (observeAll newSingleSenderStats [seqOnly 0, seqOnly 102])) \<le> 100"
  by code_simp

section \<open>The unreasonable gap\<close>

text \<open>
  C3 as stated fails on its own scenario: after observing 100 and then 5000 (gap 4899,
  between the reasonable gap and the rollover threshold, one packet accepted before) the
  tracker's packet counter is not 2.
\<close>

theorem unreasonable_gap_counters_counterexample:
  "totalPackets (observe newSingleSenderStats (seqOnly 100)) \<noteq> 0
   \<and> \<bar>uint (5000 :: u16)
        - uint (expectedSequence (observe newSingleSenderStats (seqOnly 100)) 5000)\<bar>
       > MAX_REASONABLE_SEQUENCE_GAP
   \<and> \<bar>uint (5000 :: u16)
        - uint (expectedSequence (observe newSingleSenderStats (seqOnly 100)) 5000)\<bar>
       < UINT16_RANGE - MAX_REASONABLE_SEQUENCE_GAP
   \<and> totalPackets (observeAll newSingleSenderStats [seqOnly 100, seqOnly 5000]) \<noteq> 2"
  by code_simp

text \<open>
  C3 (amended). For every tracker state with at least one accepted packet and every
  observe call whose gap \<open>\<bar>seq - expected\<bar>\<close> exceeds \<open>MAX_REASONABLE_SEQUENCE_GAP\<close> and
  is below \<open>UINT16_RANGE - MAX_REASONABLE_SEQUENCE_GAP\<close>, the call returns early and leaves
  the whole tracker unchanged: the last sequence, the missing set and the tracker's own
  counters. Observing 100 and then 5000 yields last sequence 100, an empty missing set
  and a packet counter of 1.
\<close>

theorem unreasonable_gap_leaves_tracker:
  "(totalPackets s \<noteq> 0 \<longrightarrow>
      \<bar>uint (obsSequence ob) - uint (incomingLastSequence s + 1)\<bar> > MAX_REASONABLE_SEQUENCE_GAP \<longrightarrow>
      \<bar>uint (obsSequence ob) - uint (incomingLastSequence s + 1)\<bar>
         < UINT16_RANGE - MAX_REASONABLE_SEQUENCE_GAP \<longrightarrow>
      observe s ob = s)
   \<and> incomingLastSequence
        (observeAll newSingleSenderStats
           [\<lparr>obsSequence = 100, obsTransitTime = t1, obsEdits = e1,
             obsProcessTime = p1, obsLockWaitTime = l1\<rparr>,
            \<lparr>obsSequence = 5000, obsTransitTime = t2, obsEdits = e2,
             obsProcessTime = p2, obsLockWaitTime = l2\<rparr>]) = 100
   \<and> missingSequenceNumbers
        (observeAll newSingleSenderStats
           [\<lparr>obsSequence = 100, obsTransitTime = t1, obsEdits = e1,
             obsProcessTime = p1, obsLockWaitTime = l1\<rparr>,
            \<lparr>obsSequence = 5000, obsTransitTime = t2, obsEdits = e2,
             obsProcessTime = p2, obsLockWaitTime = l2\<rparr>]) = {}
   \<and> totalPackets
        (observeAll newSingleSenderStats
           [\<lparr>obsSequence = 100, obsTransitTime = t1, obsEdits = e1,
             obsProcessTime = p1, obsLockWaitTime = l1\<rparr>,
            \<lparr>obsSequence = 5000, obsTransitTime = t2, obsEdits = e2,
             obsProcessTime = p2, obsLockWaitTime = l2\<rparr>]) = 1"
proof -
  have gen: "observe s ob = s"
    if "totalPackets s \<noteq> 0"
      and "\<bar>uint (obsSequence ob) - uint (incomingLastSequence s + 1)\<bar> > MAX_REASONABLE_SEQUENCE_GAP"
      and "\<bar>uint (obsSequence ob) - uint (incomingLastSequence s + 1)\<bar>
         < UINT16_RANGE - MAX_REASONABLE_SEQUENCE_GAP"
  proof -
    have "unreasonableGap s (obsSequence ob)"
      using that
      by (auto simp: unreasonableGap_def expectedSequence_def Let_def MAX_REASONABLE_SEQUENCE_GAP_def)
    then show ?thesis
      by (simp add: observe_def trackInboundPacket_rejected)
  qed
  have scen: "observeAll newSingleSenderStats
           [\<lparr>obsSequence = 100, obsTransitTime = t1, obsEdits = e1,
             obsProcessTime = p1, obsLockWaitTime = l1\<rparr>,
            \<lparr>obsSequence = 5000, obsTransitTime = t2, obsEdits = e2,
             obsProcessTime = p2, obsLockWaitTime = l2\<rparr>]
        = \<lparr> totalTransitTime = t1, totalProcessTime = p1, totalLockWaitTime = l1,
       totalElementsInPacket = word_of_int e1, totalPackets = 1, incomingLastSequence = 100,
       missingSequenceNumbers = {} \<rparr>"
  by (simp add: observeAll_def observe_def trackInboundPacket_def trackSequence_def
        expectedSequence_def rolloverCorrect_def pruneMissing_def updateOtherStats_def
        newSingleSenderStats_def insertSkipped.simps UINT16_RANGE_def
        MAX_REASONABLE_SEQUENCE_GAP_def MAX_MISSING_SEQUENCE_SIZE_def Let_def)
  show ?thesis
    unfolding scen using gen by simp
qed

text \<open>The scenario satisfies the hypotheses of the general statement.\<close>

theorem unreasonable_gap_leaves_tracker_witness:
  "totalPackets (observe newSingleSenderStats (seqOnly 100)) \<noteq> 0
   \<and> observe (observe newSingleSenderStats (seqOnly 100)) (seqOnly 5000)
       = observe newSingleSenderStats (seqOnly 100)"
proof -
  let ?s = "observe newSingleSenderStats (seqOnly 100)"
  have a: "totalPackets ?s \<noteq> 0" by code_simp
  have b: "\<bar>uint (obsSequence (seqOnly 5000)) - uint (incomingLastSequence ?s + 1)\<bar> > MAX_REASONABLE_SEQUENCE_GAP"
    by code_simp
  have c: "\<bar>uint (obsSequence (seqOnly 5000)) - uint (incomingLastSequence ?s + 1)\<bar> < UINT16_RANGE - MAX_REASONABLE_SEQUENCE_GAP"
    by code_simp
  from unreasonable_gap_leaves_tracker [of ?s "seqOnly 5000"] a b c
  show ?thesis by blast
qed

section \<open>The tracker invariant\<close>


lemma seqInv_last_nonneg: "seqInv f R s \<Longrightarrow> 0 \<le> seqOffset f (incomingLastSequence s)"
  unfolding seqInv_def using seqOffset_self [of f] by metis

lemma pruneMissing_noop:
  assumes near: "\<forall>m\<in>missingSequenceNumbers s. uint (incomingLastSequence s - m) < 1000"
  shows "pruneMissing s = s"
proof (cases "int (card (missingSequenceNumbers s)) > MAX_MISSING_SEQUENCE_SIZE")
  case False
  then show ?thesis by (simp add: pruneMissing_def)
next
  case big: True
  let ?l = "uint (incomingLastSequence s)"
  have sub: "uint m \<le> ?l \<and> ?l - uint m < 1000 \<or> ?l < uint m \<and> ?l - uint m + 65536 < 1000"
    if "m \<in> missingSequenceNumbers s" for m
    using near that uint_sub_if' [of "incomingLastSequence s" m]
    by (auto split: if_splits)
  show ?thesis
  proof (cases "?l - MAX_REASONABLE_SEQUENCE_GAP \<ge> 0")
    case True
    define co :: u16 where "co = word_of_int (?l - MAX_REASONABLE_SEQUENCE_GAP)"
    have c: "uint co = ?l - MAX_REASONABLE_SEQUENCE_GAP"
      unfolding co_def using True uint_u16_bounds [of "incomingLastSequence s"]
      by (intro uint_word_of_int_u16) (simp_all add: MAX_REASONABLE_SEQUENCE_GAP_def)
    have "Set.filter (\<lambda>m. \<not> (m > incomingLastSequence s \<or> m \<le> co)) (missingSequenceNumbers s)
            = missingSequenceNumbers s"
    proof -
      have "\<not> (m > incomingLastSequence s \<or> m \<le> co)" if "m \<in> missingSequenceNumbers s" for m
        using sub [OF that] uint_u16_bounds [of m] True
        unfolding word_le_def word_less_def c MAX_REASONABLE_SEQUENCE_GAP_def by linarith
      then show ?thesis by auto
    qed
    then have "s\<lparr>missingSequenceNumbers :=
                  Set.filter (\<lambda>m. \<not> (m > incomingLastSequence s \<or> m \<le> co))
                    (missingSequenceNumbers s)\<rparr> = s"
      by simp
    then show ?thesis
      using big True unfolding co_def by (simp add: pruneMissing_def Let_def)
  next
    case False
    define co :: u16
      where "co = word_of_int (?l - MAX_REASONABLE_SEQUENCE_GAP + UINT16_RANGE)"
    have c: "uint co = ?l - MAX_REASONABLE_SEQUENCE_GAP + UINT16_RANGE"
      unfolding co_def using False uint_u16_bounds [of "incomingLastSequence s"]
      by (intro uint_word_of_int_u16)
         (simp_all add: MAX_REASONABLE_SEQUENCE_GAP_def UINT16_RANGE_def)
    have "Set.filter (\<lambda>m. \<not> (m > incomingLastSequence s \<and> m \<le> co)) (missingSequenceNumbers s)
            = missingSequenceNumbers s"
    proof -
      have "\<not> (m > incomingLastSequence s \<and> m \<le> co)" if "m \<in> missingSequenceNumbers s" for m
        using sub [OF that] uint_u16_bounds [of m] False
        unfolding word_le_def word_less_def c MAX_REASONABLE_SEQUENCE_GAP_def UINT16_RANGE_def
        by linarith
      then show ?thesis by auto
    qed
    then have "s\<lparr>missingSequenceNumbers :=
                  Set.filter (\<lambda>m. \<not> (m > incomingLastSequence s \<and> m \<le> co))
                    (missingSequenceNumbers s)\<rparr> = s"
      by simp
    then show ?thesis
      using big False unfolding co_def by (simp add: pruneMissing_def Let_def)
  qed
qed

lemma seqInv_near:
  assumes "seqInv f R s" "m \<in> missingSequenceNumbers s"
  shows "uint (incomingLastSequence s - m) < 1000"
proof -
  let ?L = "seqOffset f (incomingLastSequence s)"
  from assms have m: "0 < seqOffset f m" "seqOffset f m < ?L" and L: "?L \<le> 1000"
    by (auto simp: seqInv_def)
  have "incomingLastSequence s - m
          = (f + word_of_int ?L) - (f + word_of_int (seqOffset f m))"
    using seqOffset_repr [of "incomingLastSequence s" f] seqOffset_repr [of m f] by simp
  also have "\<dots> = word_of_int (?L - seqOffset f m)"
    by simp
  finally have "uint (incomingLastSequence s - m) = uint (word_of_int (?L - seqOffset f m) :: u16)"
    by simp
  also have "\<dots> = ?L - seqOffset f m"
    using m L by (intro uint_word_of_int_u16) linarith+
  finally show ?thesis using m L by linarith
qed

lemma seqInv_pruneMissing: "seqInv f R s \<Longrightarrow> pruneMissing s = s"
  by (rule pruneMissing_noop) (blast intro: seqInv_near)

lemma seqInv_updateOtherStats:
  "seqInv f R (updateOtherStats s t e p l) = seqInv f R s"
  by (simp add: seqInv_def updateOtherStats_def)

lemma seqInv_on_time:
  assumes inv: "seqInv f R s"
    and d: "seqOffset f q = seqOffset f (incomingLastSequence s) + 1" "seqOffset f q \<le> 1000"
  shows "seqInv f (insert q R) (s\<lparr>incomingLastSequence := q\<rparr>)"
proof -
  let ?L = "seqOffset f (incomingLastSequence s)"
  from inv have R: "f \<in> R" "incomingLastSequence s \<in> R" "\<forall>x\<in>R. seqOffset f x \<le> ?L"
    and M: "missingSequenceNumbers s = {m. 0 < seqOffset f m \<and> seqOffset f m < ?L} - R"
    by (simp_all add: seqInv_def)
  have "{m. 0 < seqOffset f m \<and> seqOffset f m < ?L} - R
          = {m. 0 < seqOffset f m \<and> seqOffset f m < seqOffset f q} - insert q R"
  proof (intro set_eqI iffI)
    fix m assume "m \<in> {m. 0 < seqOffset f m \<and> seqOffset f m < ?L} - R"
    then show "m \<in> {m. 0 < seqOffset f m \<and> seqOffset f m < seqOffset f q} - insert q R"
      using d(1) by auto
  next
    fix m assume a: "m \<in> {m. 0 < seqOffset f m \<and> seqOffset f m < seqOffset f q} - insert q R"
    then have "seqOffset f m \<noteq> ?L"
      using R(2) seqOffset_inj [of f m "incomingLastSequence s"] by auto
    with a show "m \<in> {m. 0 < seqOffset f m \<and> seqOffset f m < ?L} - R"
      using d(1) by auto
  qed
  with M R d show ?thesis
    by (auto simp: seqInv_def)
qed

lemma seqInv_early:
  assumes inv: "seqInv f R s"
    and d: "seqOffset f (incomingLastSequence s) + 1 < seqOffset f q" "seqOffset f q \<le> 1000"
  shows "seqInv f (insert q R)
           (s\<lparr>missingSequenceNumbers :=
                 missingSequenceNumbers s
                   \<union> {m. seqOffset f (incomingLastSequence s) < seqOffset f m
                          \<and> seqOffset f m < seqOffset f q},
               incomingLastSequence := q\<rparr>)"
proof -
  let ?L = "seqOffset f (incomingLastSequence s)"
  from inv have R: "f \<in> R" "incomingLastSequence s \<in> R" "\<forall>x\<in>R. seqOffset f x \<le> ?L"
    and M: "missingSequenceNumbers s = {m. 0 < seqOffset f m \<and> seqOffset f m < ?L} - R"
    by (simp_all add: seqInv_def)
  have L0: "0 \<le> ?L" using inv by (rule seqInv_last_nonneg)
  have "({m. 0 < seqOffset f m \<and> seqOffset f m < ?L} - R)
          \<union> {m. ?L < seqOffset f m \<and> seqOffset f m < seqOffset f q}
          = {m. 0 < seqOffset f m \<and> seqOffset f m < seqOffset f q} - insert q R"
  proof (intro set_eqI iffI)
    fix m assume "m \<in> ({m. 0 < seqOffset f m \<and> seqOffset f m < ?L} - R)
          \<union> {m. ?L < seqOffset f m \<and> seqOffset f m < seqOffset f q}"
    then show "m \<in> {m. 0 < seqOffset f m \<and> seqOffset f m < seqOffset f q} - insert q R"
      using d(1) L0 R(3) by fastforce
  next
    fix m assume a: "m \<in> {m. 0 < seqOffset f m \<and> seqOffset f m < seqOffset f q} - insert q R"
    then have "seqOffset f m \<noteq> ?L"
      using R(2) seqOffset_inj [of f m "incomingLastSequence s"] by auto
    with a show "m \<in> ({m. 0 < seqOffset f m \<and> seqOffset f m < ?L} - R)
          \<union> {m. ?L < seqOffset f m \<and> seqOffset f m < seqOffset f q}"
      by auto
  qed
  moreover have "\<forall>x\<in>insert q R. seqOffset f x \<le> seqOffset f q"
    using R(3) d(1) by fastforce
  ultimately show ?thesis
    using M R d by (simp add: seqInv_def)
qed

lemma seqInv_late:
  assumes inv: "seqInv f R s"
    and d: "seqOffset f q \<le> seqOffset f (incomingLastSequence s)"
  shows "seqInv f (insert q R)
           (s\<lparr>missingSequenceNumbers := missingSequenceNumbers s - {q}\<rparr>)"
  using assms by (auto simp: seqInv_def)

lemma seqInv_rejected:
  assumes inv: "seqInv f R s"
    and d: "seqOffset f q = seqOffset f (incomingLastSequence s) - 1000"
  shows "seqInv f (insert q R) s"
  using assms by (auto simp: seqInv_def)

lemma counterInv_nonzero: "counterInv n s \<Longrightarrow> totalPackets s \<noteq> 0"
  by (auto simp: counterInv_def)

lemma counterInv_observe:
  assumes "counterInv n s" "Suc n < 2 ^ 64"
  shows "counterInv (Suc n) (observe s ob)"
proof (cases "unreasonableGap s (obsSequence ob)")
  case True
  then show ?thesis
    using assms by (simp add: counterInv_def totalPackets_observe)
next
  case False
  have "unat (totalPackets s + 1) = (unat (totalPackets s) + 1) mod 2 ^ 64"
    by (simp add: unat_word_ariths)
  also have "\<dots> = unat (totalPackets s) + 1"
    using assms by (intro mod_less) (simp add: counterInv_def)
  finally show ?thesis
    using False assms by (simp add: counterInv_def totalPackets_observe)
qed

lemma seqInv_trackInboundPacket:
  assumes inv: "seqInv f R s" and tp: "totalPackets s \<noteq> 0"
    and dq: "seqOffset f q \<le> 1000"
    and dl: "seqOffset f (incomingLastSequence s) - 1000 \<le> seqOffset f q"
  shows "seqInv f (insert q R) (trackInboundPacket s q t e p l)"
proof -
  let ?L = "seqOffset f (incomingLastSequence s)"
  have L: "?L \<le> 1000" using inv by (simp add: seqInv_def)
  have L0: "0 \<le> ?L" using inv by (rule seqInv_last_nonneg)
  have accepted: "seqInv f (insert q R) (trackInboundPacket s q t e p l)"
    if ts: "trackSequence s q = Some s'" and inv': "seqInv f (insert q R) s'" for s'
    using ts inv'
    by (simp add: trackInboundPacket_def seqInv_pruneMissing seqInv_updateOtherStats)
  consider "seqOffset f q = ?L - 1000" | "seqOffset f q = ?L + 1"
    | "?L + 1 < seqOffset f q" | "?L - 1000 < seqOffset f q \<and> seqOffset f q < ?L + 1"
    using dl by linarith
  then show ?thesis
  proof cases
    case 1
    then have "trackSequence s q = None"
      using tp L by (intro trackSequence_rejected)
    then show ?thesis
      using seqInv_rejected [OF inv 1] by (simp add: trackInboundPacket_def)
  next
    case 2
    show ?thesis
      using trackSequence_on_time [OF tp 2] seqInv_on_time [OF inv 2 dq] by (rule accepted)
  next
    case 3
    show ?thesis
      using trackSequence_early [OF tp L0 3 dq] seqInv_early [OF inv 3 dq] by (rule accepted)
  next
    case 4
    then have a: "seqOffset f q < ?L + 1" and b: "?L - 1000 < seqOffset f q" and c: "seqOffset f q \<le> ?L"
      by linarith+
    show ?thesis
      using trackSequence_late [OF tp L a b] seqInv_late [OF inv c] by (rule accepted)
  qed
qed

lemma run_invariant:
  assumes "seqInv f R s" "counterInv n s" "n + length obs < 2 ^ 64"
    and "\<forall>a \<in> R \<union> set (map obsSequence obs). \<forall>b \<in> R \<union> set (map obsSequence obs).
           \<bar>sint (a - b)\<bar> \<le> 1000"
  shows "seqInv f (R \<union> set (map obsSequence obs)) (observeAll s obs)
         \<and> counterInv (n + length obs) (observeAll s obs)"
  using assms
proof (induction obs arbitrary: s R n)
  case Nil
  then show ?case by (simp add: observeAll_def)
next
  case (Cons ob obs)
  let ?q = "obsSequence ob"
  let ?last = "incomingLastSequence s"
  have fR: "f \<in> R" and lR: "?last \<in> R"
    using Cons.prems(1) by (simp_all add: seqInv_def)
  have S: "R \<union> set (map obsSequence (ob # obs)) = insert ?q R \<union> set (map obsSequence obs)"
    by simp
  have pw: "\<bar>sint (a - b)\<bar> \<le> 1000"
    if "a \<in> insert ?q R \<union> set (map obsSequence obs)"
       "b \<in> insert ?q R \<union> set (map obsSequence obs)" for a b
    using Cons.prems(4) that unfolding S by blast
  have dq: "\<bar>seqOffset f ?q\<bar> \<le> 1000"
    unfolding seqOffset_def using pw [of ?q f] fR by simp
  have dL: "\<bar>seqOffset f ?last\<bar> \<le> 1000"
    unfolding seqOffset_def using pw [of ?last f] fR lR by simp
  have "\<bar>sint (?q - ?last)\<bar> \<le> 1000"
    using pw [of ?q ?last] lR by simp
  then have dl: "\<bar>seqOffset f ?q - seqOffset f ?last\<bar> \<le> 1000"
    using seqOffset_diff [OF dq dL] by simp
  have inv': "seqInv f (insert ?q R) (observe s ob)"
    unfolding observe_def
    using Cons.prems(1) counterInv_nonzero [OF Cons.prems(2)] dq dl
    by (intro seqInv_trackInboundPacket) linarith+
  have cnt': "counterInv (Suc n) (observe s ob)"
    using Cons.prems(2,3) by (intro counterInv_observe) simp_all
  have "seqInv f (insert ?q R \<union> set (map obsSequence obs)) (observeAll (observe s ob) obs)
        \<and> counterInv (Suc n + length obs) (observeAll (observe s ob) obs)"
    using inv' cnt' Cons.prems(3) pw by (intro Cons.IH) simp_all
  then show ?case
    by (simp add: observeAll_def)
qed

lemma observe_fresh:
  "observe newSingleSenderStats ob =
     \<lparr> totalTransitTime = obsTransitTime ob, totalProcessTime = obsProcessTime ob,
       totalLockWaitTime = obsLockWaitTime ob,
       totalElementsInPacket = word_of_int (obsEdits ob), totalPackets = 1,
       incomingLastSequence = obsSequence ob, missingSequenceNumbers = {} \<rparr>"
  by (simp add: observe_def trackInboundPacket_def trackSequence_def expectedSequence_def
        pruneMissing_def updateOtherStats_def newSingleSenderStats_def
        MAX_MISSING_SEQUENCE_SIZE_def)

lemma first_call_invariant:
  "seqInv (obsSequence ob) {obsSequence ob} (observe newSingleSenderStats ob)
   \<and> counterInv 1 (observe newSingleSenderStats ob)"
  by (simp add: observe_fresh seqInv_def counterInv_def)

lemma expectedRange_offsets:
  assumes "0 \<le> seqOffset f z" "seqOffset f z \<le> 1000"
  shows "expectedRange f z = {m. 0 \<le> seqOffset f m \<and> seqOffset f m \<le> seqOffset f z}"
proof -
  let ?L = "seqOffset f z"
  have "uint (z - f) = uint (word_of_int ?L :: u16)"
    by (simp add: seqOffset_def)
  also have "\<dots> = ?L"
    using assms by (intro uint_word_of_int_u16) linarith+
  finally have u: "unat (z - f) = nat ?L"
    by (simp flip: nat_uint_eq)
  show ?thesis
  proof (intro set_eqI iffI)
    fix m assume "m \<in> expectedRange f z"
    then obtain k where k: "k \<le> nat ?L" "m = f + of_nat k"
      unfolding expectedRange_def u by auto
    have "m = f + word_of_int (int k)"
      using k(2) by simp
    then have "seqOffset f m = int k"
      using k(1) assms by (simp only:) (intro seqOffset_plus; linarith)
    then show "m \<in> {m. 0 \<le> seqOffset f m \<and> seqOffset f m \<le> ?L}"
      using k(1) assms by simp
  next
    fix m assume "m \<in> {m. 0 \<le> seqOffset f m \<and> seqOffset f m \<le> ?L}"
    then have m: "0 \<le> seqOffset f m" "seqOffset f m \<le> ?L" by simp_all
    have "m = f + word_of_int (seqOffset f m)"
      by (rule seqOffset_repr)
    also have "word_of_int (seqOffset f m) = (of_nat (nat (seqOffset f m)) :: u16)"
      using m(1) by simp
    finally have "m = f + of_nat (nat (seqOffset f m))" .
    moreover have "nat (seqOffset f m) \<in> {0 .. nat ?L}"
      using m by simp
    ultimately show "m \<in> expectedRange f z"
      unfolding expectedRange_def u by (rule image_eqI)
  qed
qed

lemma seqInv_expectedRange:
  assumes "seqInv f R s"
  shows "missingSequenceNumbers s = expectedRange f (incomingLastSequence s) - R"
proof -
  let ?L = "seqOffset f (incomingLastSequence s)"
  from assms have R: "f \<in> R" "incomingLastSequence s \<in> R" and L: "?L \<le> 1000"
    and M: "missingSequenceNumbers s = {m. 0 < seqOffset f m \<and> seqOffset f m < ?L} - R"
    by (simp_all add: seqInv_def)
  have L0: "0 \<le> ?L" using assms by (rule seqInv_last_nonneg)
  have "{m. 0 \<le> seqOffset f m \<and> seqOffset f m \<le> ?L} - R
          = {m. 0 < seqOffset f m \<and> seqOffset f m < ?L} - R"
  proof (intro set_eqI iffI)
    fix m assume a: "m \<in> {m. 0 \<le> seqOffset f m \<and> seqOffset f m \<le> ?L} - R"
    then have "seqOffset f m \<noteq> 0"
      using R(1) seqOffset_inj [of f m f] by auto
    moreover have "seqOffset f m \<noteq> ?L"
      using a R(2) seqOffset_inj [of f m "incomingLastSequence s"] by auto
    ultimately show "m \<in> {m. 0 < seqOffset f m \<and> seqOffset f m < ?L} - R"
      using a by auto
  qed auto
  then show ?thesis
    unfolding M expectedRange_offsets [OF L0 L] by simp
qed

text \<open>
  C1. For every run of fewer than \<open>2^64\<close> observe calls on a fresh tracker whose sequence
  numbers are pairwise within \<open>MAX_REASONABLE_SEQUENCE_GAP\<close> of each other modulo
  \<open>2^16\<close>, in any order, the missing set after the run is the set of the sequence numbers
  of the expected range (from the first number observed up to the last sequence, modulo
  \<open>2^16\<close>) that were never observed; and the last sequence is the furthest of the
  observed numbers.
\<close>

theorem missing_is_expected_minus_received:
  assumes "pairwiseWithinGap (map obsSequence obs)" and "length obs < 2 ^ 64"
  shows "missingSequenceNumbers (observeAll newSingleSenderStats obs)
           = neverReceived (map obsSequence obs)
               (incomingLastSequence (observeAll newSingleSenderStats obs))
         \<and> (obs \<noteq> [] \<longrightarrow>
              incomingLastSequence (observeAll newSingleSenderStats obs)
                 \<in> set (map obsSequence obs)
              \<and> (\<forall>q \<in> set (map obsSequence obs).
                    sint (q - incomingLastSequence (observeAll newSingleSenderStats obs)) \<le> 0))"
proof (cases obs)
  case Nil
  then show ?thesis
    by (simp add: observeAll_def neverReceived_def newSingleSenderStats_def)
next
  case (Cons ob obs')
  let ?f = "obsSequence ob"
  let ?R = "set (map obsSequence obs)"
  let ?s = "observeAll newSingleSenderStats obs"
  have pw: "\<forall>a \<in> {?f} \<union> set (map obsSequence obs'). \<forall>b \<in> {?f} \<union> set (map obsSequence obs').
              \<bar>sint (a - b)\<bar> \<le> 1000"
    using assms(1) Cons
    by (simp add: pairwiseWithinGap_def MAX_REASONABLE_SEQUENCE_GAP_def)
  have len: "1 + length obs' < 2 ^ 64"
    using assms(2) Cons by simp
  have "seqInv ?f ({?f} \<union> set (map obsSequence obs'))
          (observeAll (observe newSingleSenderStats ob) obs')"
    using run_invariant [OF conjunct1 [OF first_call_invariant]
                            conjunct2 [OF first_call_invariant] len pw]
    by blast
  then have inv: "seqInv ?f ?R ?s"
    using Cons by (simp add: observeAll_def)
  have miss: "missingSequenceNumbers ?s = neverReceived (map obsSequence obs) (incomingLastSequence ?s)"
    using seqInv_expectedRange [OF inv] Cons by (simp add: neverReceived_def)
  from inv have R: "?f \<in> ?R" "incomingLastSequence ?s \<in> ?R"
    and top: "\<forall>x\<in>?R. seqOffset ?f x \<le> seqOffset ?f (incomingLastSequence ?s)"
    by (simp_all add: seqInv_def)
  have far: "sint (q - incomingLastSequence ?s) \<le> 0" if q: "q \<in> ?R" for q
  proof -
    have w: "\<bar>sint (a - ?f)\<bar> \<le> 1000" if "a \<in> ?R" for a
      using assms(1) that R(1)
      unfolding pairwiseWithinGap_def MAX_REASONABLE_SEQUENCE_GAP_def by blast
    have "sint (q - incomingLastSequence ?s)
            = seqOffset ?f q - seqOffset ?f (incomingLastSequence ?s)"
      using w [OF q] w [OF R(2)] by (intro seqOffset_diff) (simp_all add: seqOffset_def)
    moreover have "seqOffset ?f q \<le> seqOffset ?f (incomingLastSequence ?s)"
      using top q by blast
    ultimately show ?thesis
      by linarith
  qed
  from miss R(2) far show ?thesis by blast
qed

text \<open>A run across the rollover: 65534, 2, 65535, 1 leaves 0 missing.\<close>

theorem missing_is_expected_minus_received_witness:
  "pairwiseWithinGap (map obsSequence (map seqOnly [65534, 2, 65535, 1]))
   \<and> length (map seqOnly [65534, 2, 65535, 1]) < 2 ^ 64
   \<and> neverReceived (map obsSequence (map seqOnly [65534, 2, 65535, 1])) 2 = {0}
   \<and> missingSequenceNumbers (observeAll newSingleSenderStats (map seqOnly [65534, 2, 65535, 1]))
        = {0}"
proof -
  let ?obs = "map seqOnly [65534, 2, 65535, 1]"
  have p: "pairwiseWithinGap (map obsSequence ?obs)"
    by code_simp
  have l: "length ?obs < 2 ^ 64"
    by simp
  have last: "incomingLastSequence (observeAll newSingleSenderStats ?obs) = 2"
    by code_simp
  have n: "neverReceived (map obsSequence ?obs) 2 = {0}"
    by code_simp
  from missing_is_expected_minus_received [OF p l] p l n
  show ?thesis
    unfolding last by blast
qed

section \<open>The loops that need not end\<close>

lemma nackSweep_returns_not_pending:
  assumes "nackSweep c st visited rest packetsSent sent = Some r"
  shows "\<forall>nodeUUID nodeStats rest'. rest = (nodeUUID, nodeStats) # rest' \<longrightarrow>
           isAlive c nodeUUID \<longrightarrow> \<not> hasPacketsToProcessFrom st nodeUUID"
  apply (rule nackSweep.raw_induct
           [where P = "\<lambda>c st visited rest packetsSent sent r.
                         \<forall>nodeUUID nodeStats rest'. rest = (nodeUUID, nodeStats) # rest' \<longrightarrow>
                           isAlive c nodeUUID \<longrightarrow> \<not> hasPacketsToProcessFrom st nodeUUID",
            OF _ assms])
  subgoal premises prems for sweep c st visited rest packetsSent sent r
  proof (intro allI impI)
    fix nodeUUID nodeStats rest'
    assume rest: "rest = (nodeUUID, nodeStats) # rest'" and alive: "isAlive c nodeUUID"
    show "\<not> hasPacketsToProcessFrom st nodeUUID"
    proof
      assume pend: "hasPacketsToProcessFrom st nodeUUID"
      with prems(2) rest alive have "sweep c st visited rest packetsSent sent = Some r"
        by simp
      from prems(1) [OF this] rest alive pend show False by blast
    qed
  qed
  done

lemma nackSweep_pending_never_returns:
  assumes "isAlive c nodeUUID" "hasPacketsToProcessFrom st nodeUUID"
  shows "nackSweep c st visited ((nodeUUID, nodeStats) # rest') packetsSent sent = None"
proof (cases "nackSweep c st visited ((nodeUUID, nodeStats) # rest') packetsSent sent")
  case None
  then show ?thesis .
next
  case (Some r)
  from nackSweep_returns_not_pending [OF Some] assms show ?thesis by blast
qed

lemma editLoop_returns_not_stuck:
  assumes "editLoop c packetType packet sendingNode l = Some l'"
  shows "\<not> (elAtByte l < int (length packet)
            \<and> (\<forall>oct at maxSize. fst (processEditPacketData c oct packetType packet at maxSize
                                        sendingNode) = 0))"
  apply (rule editLoop.raw_induct
           [where P = "\<lambda>c packetType packet sendingNode l l'.
                         \<not> (elAtByte l < int (length packet)
                            \<and> (\<forall>oct at maxSize.
                                  fst (processEditPacketData c oct packetType packet at maxSize
                                         sendingNode) = 0))",
            OF _ assms])
  subgoal premises prems for loop c packetType packet sendingNode l l'
  proof
    assume stuck: "elAtByte l < int (length packet)
            \<and> (\<forall>oct at maxSize. fst (processEditPacketData c oct packetType packet at maxSize
                                        sendingNode) = 0)"
    obtain n oct' where step:
      "processEditPacketData c (elOctree l) packetType packet (elAtByte l)
          (int (length packet) - elAtByte l) sendingNode = (n, oct')"
      by (cases "processEditPacketData c (elOctree l) packetType packet (elAtByte l)
          (int (length packet) - elAtByte l) sendingNode")
    have n: "n = 0"
      using stuck step by (metis fst_conv)
    from prems(2) stuck step n obtain l1 where
      "loop c packetType packet sendingNode l1 = Some l'" "elAtByte l1 = elAtByte l"
      by (simp add: Let_def)
    from prems(1) [OF this(1)] this(2) stuck show False
      by simp
  qed
  done

lemma editLoop_zero_never_returns:
  assumes "elAtByte l < int (length packet)"
    and "\<forall>oct at maxSize. fst (processEditPacketData c oct packetType packet at maxSize
                                sendingNode) = 0"
  shows "editLoop c packetType packet sendingNode l = None"
proof (cases "editLoop c packetType packet sendingNode l")
  case None
  then show ?thesis .
next
  case (Some l')
  from editLoop_returns_not_stuck [OF Some] assms show ?thesis by blast
qed

lemma editLoop_terminates:
  assumes progress: "\<forall>oct at maxSize.
            0 < fst (processEditPacketData c oct packetType packet at maxSize sendingNode)"
  shows "\<exists>l'. editLoop c packetType packet sendingNode l = Some l'
              \<and> int (length packet) \<le> elAtByte l'"
proof (induction "nat (int (length packet) - elAtByte l)" arbitrary: l rule: less_induct)
  case less
  show ?case
  proof (cases "elAtByte l < int (length packet)")
    case False
    then show ?thesis
      by (subst editLoop.simps) simp
  next
    case True
    obtain n oct' where step:
      "processEditPacketData c (elOctree l) packetType packet (elAtByte l)
          (int (length packet) - elAtByte l) sendingNode = (n, oct')"
      by (cases "processEditPacketData c (elOctree l) packetType packet (elAtByte l)
          (int (length packet) - elAtByte l) sendingNode")
    have n: "0 < n"
      using progress step by (metis fst_conv)
    let ?l1 = "\<lparr>elOctree = oct', elClock = elClock l + 3,
               elAtByte = elAtByte l + n,
               elEditsInPacket = elEditsInPacket l + 1,
               elProcessTime = elProcessTime l
                  + (usecTimestampNow c (elClock l + 2) - usecTimestampNow c (elClock l + 1)),
               elLockWaitTime = elLockWaitTime l
                  + (usecTimestampNow c (elClock l + 1) - usecTimestampNow c (elClock l))\<rparr>"
    have unfold: "editLoop c packetType packet sendingNode l
                    = editLoop c packetType packet sendingNode ?l1"
      using True step by (subst editLoop.simps) (simp add: Let_def)
    have "nat (int (length packet) - elAtByte ?l1) < nat (int (length packet) - elAtByte l)"
      using True n by simp
    from less [OF this] show ?thesis
      unfolding unfold .
  qed
qed

section \<open>The NACK builder\<close>

lemma packSequenceNumbers_eq:
  "packSequenceNumbers i n it dataAt written =
     (if n - i \<le> length it
      then Some (written @ take (n - i) it, drop (n - i) it, dataAt + 2 * int (n - i))
      else None)"
proof (induction i n it dataAt written rule: packSequenceNumbers.induct)
  case (1 i n it dataAt written)
  show ?case
  proof (cases "i < n")
    case False
    then show ?thesis
      by (subst packSequenceNumbers.simps) simp
  next
    case True
    show ?thesis
    proof (cases it)
      case Nil
      with True show ?thesis
        by (subst packSequenceNumbers.simps) simp
    next
      case (Cons x it')
      have d: "n - i = Suc (n - (i + 1))"
        using True by simp
      show ?thesis
        using True Cons 1 [OF True Cons]
        by (subst packSequenceNumbers.simps) (simp add: d del: diff_Suc)
    qed
  qed
qed

lemma uint_of_nat_u16: "n < 65536 \<Longrightarrow> uint (of_nat n :: u16) = int n"
  by (simp add: uint_nat unat_of_nat)

lemma nackChunks_Nil: "nackChunks room [] = []"
  by (subst nackChunks.simps) simp

lemma sequenceNumbersRoomFor_eq:
  assumes "2 \<le> b" "b \<le> 65535"
  shows "sequenceNumbersRoomFor b = (b - 2) div 2"
proof -
  have m: "(b - 2) mod 2 ^ 64 = b - 2"
    using assms by (intro mod_pos_pos_trivial) simp_all
  have r: "0 \<le> (b - 2) div 2" "(b - 2) div 2 < 32768"
    using assms by simp_all
  have "sint (word_of_int ((b - 2) div 2) :: 32 word) = (b - 2) div 2"
    using r by (simp add: signed_of_int signed_take_bit_int_eq_self)
  then show ?thesis
    unfolding sequenceNumbersRoomFor_def m .
qed

lemma nackLoop_chunks:
  assumes room: "0 < room" "int room = (mps - int (length header) - 2) div 2"
    and mps: "int (length header) + 4 \<le> mps" "mps \<le> 65535"
  shows "nackLoop mps header dest (int (length it)) it packetsSent sent
           = Some (Inr (packetsSent + int (length (nackChunks room it)),
                        sent @ map (chunkDatagram dest header) (nackChunks room it)))"
proof (induction "length it" arbitrary: it packetsSent sent rule: less_induct)
  case less
  show ?case
  proof (cases "it = []")
    case True
    then show ?thesis
      by (subst nackLoop.simps) (simp add: nackChunks_Nil)
  next
    case False
    let ?k = "min (length it) room"
    have k0: "0 < ?k" using False room(1) by simp
    have rf: "sequenceNumbersRoomFor (mps - int (length header)) = int room"
      using mps room(2) by (subst sequenceNumbersRoomFor_eq) simp_all
    have kb: "int ?k < 65536"
      using room(2) mps by linarith
    have mn: "min (int (length it)) (int room) = int ?k"
      by simp
    have cnt: "(word_of_int (int ?k) :: u16) = of_nat ?k"
      by simp
    have un: "unat (of_nat ?k :: u16) = ?k"
      using kb by (simp add: unat_of_nat)
    have ui: "uint (of_nat ?k :: u16) = int ?k"
      using kb by (intro uint_of_nat_u16) simp
    have pk: "packSequenceNumbers 0 ?k it (int (length header) + 2) []
                = Some (take ?k it, drop ?k it, int (length header) + 2 + 2 * int ?k)"
      by (simp add: packSequenceNumbers_eq)
    have step: "nackLoop mps header dest (int (length it)) it packetsSent sent
                 = nackLoop mps header dest (int (length it) - int ?k) (drop ?k it)
                     (packetsSent + 1) (sent @ [chunkDatagram dest header (take ?k it)])"
      using False
      apply (subst nackLoop.simps)
      apply (simp only: Let_def rf mn cnt un ui pk)
      apply (simp add: chunkDatagram_def)
      done
    have len: "int (length it) - int ?k = int (length (drop ?k it))"
      by simp
    have less': "length (drop ?k it) < length it"
      using k0 False by simp
    have ch: "nackChunks room it = take ?k it # nackChunks room (drop ?k it)"
      using False room(1) by (subst nackChunks.simps) simp
    show ?thesis
      unfolding step len less [OF less'] ch by simp
  qed
qed

lemma concat_nackChunks: "0 < room \<Longrightarrow> concat (nackChunks room xs) = xs"
proof (induction room xs rule: nackChunks.induct)
  case (1 room remaining)
  show ?case
  proof (cases "remaining = []")
    case True
    then show ?thesis by (subst nackChunks.simps) simp
  next
    case False
    with 1 show ?thesis
      by (subst nackChunks.simps) simp
  qed
qed

lemma nackChunks_bounds:
  "chunk \<in> set (nackChunks room xs) \<Longrightarrow> 0 < length chunk \<and> length chunk \<le> room"
proof (induction room xs rule: nackChunks.induct)
  case (1 room remaining)
  show ?case
  proof (cases "remaining = [] \<or> room = 0")
    case True
    with 1(2) show ?thesis by (subst (asm) nackChunks.simps) simp
  next
    case False
    from 1(2) have "chunk = take (min (length remaining) room) remaining
                     \<or> chunk \<in> set (nackChunks room (drop (min (length remaining) room) remaining))"
      using False by (subst (asm) nackChunks.simps) simp
    then show ?thesis
    proof
      assume c: "chunk = take (min (length remaining) room) remaining"
      have "0 < length remaining" "0 < room"
        using False by simp_all
      then show ?thesis
        unfolding c by (simp add: min_def)
    next
      assume "chunk \<in> set (nackChunks room (drop (min (length remaining) room) remaining))"
      then show ?thesis
        by (rule 1(1) [OF False])
    qed
  qed
qed

lemma nackChunks_nth_length:
  assumes "0 < room" "i < length (nackChunks room xs)"
  shows "length (nackChunks room xs ! i) = min (length xs - i * room) room"
  using assms
proof (induction room xs arbitrary: i rule: nackChunks.induct)
  case (1 room remaining)
  have ne: "\<not> (remaining = [] \<or> room = 0)"
    using 1(2,3) by (subst (asm) nackChunks.simps) (auto split: if_splits)
  let ?k = "min (length remaining) room"
  have ch: "nackChunks room remaining = take ?k remaining # nackChunks room (drop ?k remaining)"
    using ne by (subst nackChunks.simps) simp
  show ?case
  proof (cases i)
    case 0
    then show ?thesis using ch by simp
  next
    case (Suc j)
    have j: "j < length (nackChunks room (drop ?k remaining))"
      using 1(3) ch Suc by simp
    have tail: "nackChunks room (drop ?k remaining) \<noteq> []"
      using j by auto
    have full: "room \<le> length remaining"
    proof (rule ccontr)
      assume "\<not> room \<le> length remaining"
      then have "drop ?k remaining = []" by simp
      then have "nackChunks room (drop ?k remaining) = []"
        by (subst nackChunks.simps) simp
      with tail show False by simp
    qed
    have "length (nackChunks room remaining ! i)
            = length (nackChunks room (drop ?k remaining) ! j)"
      using ch Suc by simp
    also have "\<dots> = min (length (drop ?k remaining) - j * room) room"
      using 1(1) [OF ne 1(2) j] .
    also have "\<dots> = min (length remaining - i * room) room"
      using full Suc by (simp add: min_def)
    finally show ?thesis .
  qed
qed

lemma nackChunks_remaining:
  assumes "0 < room" "i < length (nackChunks room xs)"
  shows "length (nackChunks room xs ! i)
           = min (length (concat (drop i (nackChunks room xs)))) room"
  using assms
proof (induction room xs arbitrary: i rule: nackChunks.induct)
  case (1 room remaining)
  have ne: "\<not> (remaining = [] \<or> room = 0)"
    using 1(2,3) by (subst (asm) nackChunks.simps) (auto split: if_splits)
  let ?k = "min (length remaining) room"
  have ch: "nackChunks room remaining = take ?k remaining # nackChunks room (drop ?k remaining)"
    using ne by (subst nackChunks.simps) simp
  show ?case
  proof (cases i)
    case 0
    have "concat (nackChunks room remaining) = remaining"
      using 1(2) by (rule concat_nackChunks)
    then show ?thesis
      using 0 ch by simp
  next
    case (Suc j)
    have j: "j < length (nackChunks room (drop ?k remaining))"
      using 1(3) ch Suc by simp
    show ?thesis
      using 1(1) [OF ne 1(2) j] ch Suc by simp
  qed
qed

text \<open>
  What the builder does for a live sender that the sweep reaches, with no packets
  waiting and numbers missing: it returns, the sweep goes on with the next entry, each
  datagram carries the minimum of the numbers remaining and of the room, no datagram is
  longer than \<^verbatim>\<open>MAX_PACKET_SIZE\<close>, and the datagrams together carry the missing
  set.
\<close>

lemma nack_datagrams_for_reached_sender:
  assumes hdr: "int (length (nackHeader c)) + 4 \<le> MAX_PACKET_SIZE c"
    and mps: "MAX_PACKET_SIZE c \<le> 65535"
    and dist: "distinct (setOrder c (missingSequenceNumbers nodeStats))"
    and enum: "set (setOrder c (missingSequenceNumbers nodeStats))
                 = missingSequenceNumbers nodeStats"
    and ne: "missingSequenceNumbers nodeStats \<noteq> {}"
    and alive: "isAlive c nodeUUID"
    and idle: "\<not> hasPacketsToProcessFrom st nodeUUID"
  shows "\<exists>dgs.
           nackLoop (MAX_PACKET_SIZE c) (nackHeader c) nodeUUID
               (int (card (missingSequenceNumbers nodeStats)))
               (setOrder c (missingSequenceNumbers nodeStats)) packetsSent sent
             = Some (Inr (packetsSent + int (length dgs), sent @ dgs))
           \<and> nackSweep c st visited ((nodeUUID, nodeStats) # rest) packetsSent sent
               = nackSweep c st (visited @ [(nodeUUID, nodeStats)]) rest
                   (packetsSent + int (length dgs)) (sent @ dgs)
           \<and> dgs \<noteq> []
           \<and> (\<forall>i < length dgs.
                 int (length (dgSequenceNumbers (dgs ! i)))
                   = min (int (length (concat (map dgSequenceNumbers (drop i dgs)))))
                       ((MAX_PACKET_SIZE c - int (length (nackHeader c)) - 2) div 2)
                 \<and> int (length (dgSequenceNumbers (dgs ! i)))
                      = min (int (card (missingSequenceNumbers nodeStats))
                               - int i * ((MAX_PACKET_SIZE c - int (length (nackHeader c)) - 2) div 2))
                          ((MAX_PACKET_SIZE c - int (length (nackHeader c)) - 2) div 2)
                 \<and> uint (dgNumSequenceNumbers (dgs ! i))
                      = int (length (dgSequenceNumbers (dgs ! i)))
                 \<and> dgNumBytes (dgs ! i)
                      = int (length (nackHeader c)) + 2
                        + 2 * int (length (dgSequenceNumbers (dgs ! i)))
                 \<and> dgNumBytes (dgs ! i) \<le> MAX_PACKET_SIZE c)
           \<and> concat (map dgSequenceNumbers dgs)
                = setOrder c (missingSequenceNumbers nodeStats)
           \<and> (\<Union>d \<in> set dgs. set (dgSequenceNumbers d)) = missingSequenceNumbers nodeStats"
proof -
  let ?S = "missingSequenceNumbers nodeStats"
  let ?it = "setOrder c ?S"
  let ?h = "int (length (nackHeader c))"
  let ?roomi = "(MAX_PACKET_SIZE c - ?h - 2) div 2"
  define room where "room = nat ?roomi"
  have roomi: "1 \<le> ?roomi" "?roomi < 32768"
    using hdr mps by simp_all
  have room: "0 < room" "int room = ?roomi"
    using roomi by (simp_all add: room_def)
  let ?chunks = "nackChunks room ?it"
  let ?dgs = "map (chunkDatagram nodeUUID (nackHeader c)) ?chunks"
  have card: "int (card ?S) = int (length ?it)"
    using dist enum distinct_card [of ?it] by simp
  have run: "nackLoop (MAX_PACKET_SIZE c) (nackHeader c) nodeUUID (int (card ?S)) ?it
               packetsSent sent
             = Some (Inr (packetsSent + int (length ?dgs), sent @ ?dgs))"
    unfolding card using nackLoop_chunks [OF room hdr mps] by simp
  have sweep: "nackSweep c st visited ((nodeUUID, nodeStats) # rest) packetsSent sent
               = nackSweep c st (visited @ [(nodeUUID, nodeStats)]) rest
                   (packetsSent + int (length ?dgs)) (sent @ ?dgs)"
    using alive idle run by (subst nackSweep.simps) simp
  have seqs: "map dgSequenceNumbers ?dgs = ?chunks"
    by (simp add: chunkDatagram_def comp_def)
  have cc: "concat ?chunks = ?it"
    using room(1) by (rule concat_nackChunks)
  have itne: "?it \<noteq> []"
    using enum ne by auto
  have nonempty: "?dgs \<noteq> []"
    using cc itne by auto
  have each: "int (length (dgSequenceNumbers (?dgs ! i)))
                   = min (int (length (concat (map dgSequenceNumbers (drop i ?dgs))))) ?roomi
              \<and> int (length (dgSequenceNumbers (?dgs ! i)))
                   = min (int (card ?S) - int i * ?roomi) ?roomi
              \<and> uint (dgNumSequenceNumbers (?dgs ! i))
                   = int (length (dgSequenceNumbers (?dgs ! i)))
              \<and> dgNumBytes (?dgs ! i)
                   = ?h + 2 + 2 * int (length (dgSequenceNumbers (?dgs ! i)))
              \<and> dgNumBytes (?dgs ! i) \<le> MAX_PACKET_SIZE c"
    if i: "i < length ?dgs" for i
  proof -
    have i': "i < length ?chunks" using i by simp
    let ?ch = "?chunks ! i"
    have d: "?dgs ! i = chunkDatagram nodeUUID (nackHeader c) ?ch"
      using i' by simp
    have b: "0 < length ?ch" "length ?ch \<le> room"
      using nackChunks_bounds [of ?ch room ?it] i' by simp_all
    have dr: "map dgSequenceNumbers (drop i ?dgs) = drop i ?chunks"
      using seqs by (simp flip: drop_map)
    have l: "length ?ch = min (length (concat (drop i ?chunks))) room"
      using room(1) i' by (rule nackChunks_remaining)
    have a1: "int (length (dgSequenceNumbers (?dgs ! i)))
                = min (int (length (concat (map dgSequenceNumbers (drop i ?dgs))))) ?roomi"
      unfolding d dr room(2) [symmetric] using l by (simp add: chunkDatagram_def)
    have n: "length ?ch = min (length ?it - i * room) room"
      using room(1) i' by (rule nackChunks_nth_length)
    then have "i * room < length ?it"
      using b(1) by (simp add: min_def split: if_splits)
    then have "int (length ?it - i * room) = int (card ?S) - int i * ?roomi"
      unfolding card room(2) [symmetric] by (simp add: of_nat_diff)
    then have a1': "int (length (dgSequenceNumbers (?dgs ! i)))
                = min (int (card ?S) - int i * ?roomi) ?roomi"
      unfolding d room(2) [symmetric] using n by (simp add: chunkDatagram_def)
    have small: "length ?ch < 65536"
      using b(2) room(2) roomi(2) by linarith
    have "uint (of_nat (length ?ch) :: u16) = int (length ?ch)"
      using small by (rule uint_of_nat_u16)
    then have a2: "uint (dgNumSequenceNumbers (?dgs ! i))
                     = int (length (dgSequenceNumbers (?dgs ! i)))"
      unfolding d by (simp add: chunkDatagram_def)
    have a3: "dgNumBytes (?dgs ! i) = ?h + 2 + 2 * int (length (dgSequenceNumbers (?dgs ! i)))"
      unfolding d by (simp add: chunkDatagram_def)
    have "2 * int (length ?ch) \<le> MAX_PACKET_SIZE c - ?h - 2"
      using b(2) room(2) by linarith
    then have a4: "dgNumBytes (?dgs ! i) \<le> MAX_PACKET_SIZE c"
      unfolding d by (simp add: chunkDatagram_def)
    from a1 a1' a2 a3 a4 show ?thesis by blast
  qed
  have cat: "concat (map dgSequenceNumbers ?dgs) = ?it"
    unfolding seqs by (rule cc)
  have "(\<Union>d \<in> set ?dgs. set (dgSequenceNumbers d)) = set (concat (map dgSequenceNumbers ?dgs))"
    by simp
  then have un: "(\<Union>d \<in> set ?dgs. set (dgSequenceNumbers d)) = ?S"
    unfolding cat enum .
  from run sweep nonempty each cat un show ?thesis
    by blast
qed

text \<open>
  A sweep over entries none of which is a live node with packets waiting returns: the
  dead entries are erased and the datagrams of the live ones are sent, in order.
\<close>

lemma nackSweep_unblocked:
  assumes hdr: "int (length (nackHeader c)) + 4 \<le> MAX_PACKET_SIZE c"
    and mps: "MAX_PACKET_SIZE c \<le> 65535"
    and ord: "\<forall>(nodeUUID, nodeStats) \<in> set rest.
                distinct (setOrder c (missingSequenceNumbers nodeStats))
                \<and> set (setOrder c (missingSequenceNumbers nodeStats))
                    = missingSequenceNumbers nodeStats"
    and free: "\<forall>(nodeUUID, nodeStats) \<in> set rest.
                 \<not> (isAlive c nodeUUID \<and> hasPacketsToProcessFrom st nodeUUID)"
  shows "nackSweep c st visited rest packetsSent sent
           = Some (Inr \<lparr>swStats = visited @ filter (\<lambda>(nodeUUID, nodeStats). isAlive c nodeUUID) rest,
                        swPacketsSent = packetsSent + int (length (sweepDatagrams c rest)),
                        swSent = sent @ sweepDatagrams c rest\<rparr>)"
  using ord free
proof (induction rest arbitrary: visited packetsSent sent)
  case Nil
  show ?case
    by (subst nackSweep.simps) (simp add: sweepDatagrams_def)
next
  case (Cons entry rest)
  obtain nodeUUID nodeStats where entry: "entry = (nodeUUID, nodeStats)"
    by (cases entry)
  have ord': "\<forall>(nodeUUID, nodeStats) \<in> set rest.
                distinct (setOrder c (missingSequenceNumbers nodeStats))
                \<and> set (setOrder c (missingSequenceNumbers nodeStats))
                    = missingSequenceNumbers nodeStats"
    and free': "\<forall>(nodeUUID, nodeStats) \<in> set rest.
                 \<not> (isAlive c nodeUUID \<and> hasPacketsToProcessFrom st nodeUUID)"
    using Cons.prems by simp_all
  note IH = Cons.IH [OF ord' free']
  show ?case
  proof (cases "isAlive c nodeUUID")
    case False
    then show ?thesis
      unfolding entry
      by (subst nackSweep.simps) (simp add: IH sweepDatagrams_def)
  next
    case True
    let ?S = "missingSequenceNumbers nodeStats"
    let ?it = "setOrder c ?S"
    let ?roomi = "(MAX_PACKET_SIZE c - int (length (nackHeader c)) - 2) div 2"
    let ?dgs = "map (chunkDatagram nodeUUID (nackHeader c)) (nackChunks (nat ?roomi) ?it)"
    have idle: "\<not> hasPacketsToProcessFrom st nodeUUID"
      using Cons.prems(2) True unfolding entry by simp
    have en: "distinct ?it" "set ?it = ?S"
      using Cons.prems(1) unfolding entry by simp_all
    have card: "int (card ?S) = int (length ?it)"
      using en distinct_card [of ?it] by simp
    have room: "0 < nat ?roomi" "int (nat ?roomi) = ?roomi"
      using hdr by simp_all
    have run: "nackLoop (MAX_PACKET_SIZE c) (nackHeader c) nodeUUID (int (card ?S)) ?it
                 packetsSent sent
               = Some (Inr (packetsSent + int (length ?dgs), sent @ ?dgs))"
      unfolding card using nackLoop_chunks [OF room hdr mps] by simp
    have sd: "sweepDatagrams c ((nodeUUID, nodeStats) # rest) = ?dgs @ sweepDatagrams c rest"
      using True by (simp add: sweepDatagrams_def)
    show ?thesis
      unfolding entry sd
      using True idle run
      by (subst nackSweep.simps) (simp add: IH)
  qed
qed

lemma sendNackPackets_unblocked:
  assumes hdr: "int (length (nackHeader c)) + 4 \<le> MAX_PACKET_SIZE c"
    and mps: "MAX_PACKET_SIZE c \<le> 65535"
    and ord: "\<forall>(nodeUUID, nodeStats) \<in> set (singleSenderStats st).
                distinct (setOrder c (missingSequenceNumbers nodeStats))
                \<and> set (setOrder c (missingSequenceNumbers nodeStats))
                    = missingSequenceNumbers nodeStats"
    and free: "\<forall>(nodeUUID, nodeStats) \<in> set (singleSenderStats st).
                 \<not> (isAlive c nodeUUID \<and> hasPacketsToProcessFrom st nodeUUID)"
  shows "sendNackPackets c st
           = Some (Inr (int (length (sweepDatagrams c (singleSenderStats st))),
                        sweepDatagrams c (singleSenderStats st),
                        st\<lparr>singleSenderStats :=
                             filter (\<lambda>(nodeUUID, nodeStats). isAlive c nodeUUID)
                               (singleSenderStats st)\<rparr>))"
  by (simp add: sendNackPackets_def nackSweep_unblocked [OF hdr mps ord free])

text \<open>
  C6. The claim fails for a live sender that stands behind a live sender with packets
  waiting. In the registry \<open>[5, 6]\<close> node 6 is alive, has no packet waiting and misses
  11 and 12, and the NACK header leaves room; but node 5 has a packet waiting, the sweep
  stays on its entry, and \<^verbatim>\<open>sendNackPackets\<close> does not return: no datagram is built
  for node 6. With no packet of node 5 waiting, the same registry gets one datagram for
  each node.
\<close>

theorem idle_sender_behind_pending_gets_no_nack:
  "singleSenderStats blockedProcessor
     = [(5, observeAll newSingleSenderStats (map seqOnly [10, 13])),
        (6, observeAll newSingleSenderStats (map seqOnly [10, 13]))]
   \<and> isAlive (sampleCollaborators 2) 6
   \<and> \<not> hasPacketsToProcessFrom blockedProcessor 6
   \<and> missingSequenceNumbers (observeAll newSingleSenderStats (map seqOnly [10, 13])) = {11, 12}
   \<and> int (length (nackHeader (sampleCollaborators 2))) + 4
        \<le> MAX_PACKET_SIZE (sampleCollaborators 2)
   \<and> sendNackPackets (sampleCollaborators 2) blockedProcessor = None
   \<and> map_option (map_sum id (\<lambda>(packetsSent, sent, st). (packetsSent, sent)))
        (sendNackPackets (sampleCollaborators 2)
           (blockedProcessor\<lparr>nodePacketCounts := (\<lambda>u. 0)\<rparr>))
      = Some (Inr (2, [\<lparr>dgDestination = 5, dgHeader = [9, 9], dgNumSequenceNumbers = 2,
                         dgSequenceNumbers = [11, 12], dgNumBytes = 8\<rparr>,
                       \<lparr>dgDestination = 6, dgHeader = [9, 9], dgNumSequenceNumbers = 2,
                         dgSequenceNumbers = [11, 12], dgNumBytes = 8\<rparr>]))"
proof -
  let ?c = "sampleCollaborators 2 :: nat collaborators"
  let ?t = "observeAll newSingleSenderStats (map seqOnly [10, 13])"
  have r: "singleSenderStats blockedProcessor = [(5, ?t), (6, ?t)]"
    by (simp add: blockedProcessor_def)
  have a6: "isAlive ?c 6"
    by (simp add: sampleCollaborators_def)
  have i6: "\<not> hasPacketsToProcessFrom blockedProcessor 6"
    by (simp add: hasPacketsToProcessFrom_def blockedProcessor_def)
  have m: "missingSequenceNumbers ?t = {11, 12}"
    by code_simp
  have h: "int (length (nackHeader ?c)) + 4 \<le> MAX_PACKET_SIZE ?c"
    by (simp add: sampleCollaborators_def)
  have a5: "isAlive ?c 5"
    by (simp add: sampleCollaborators_def)
  have p5: "hasPacketsToProcessFrom blockedProcessor 5"
    by (simp add: hasPacketsToProcessFrom_def blockedProcessor_def)
  have "nackSweep ?c blockedProcessor [] ((5, ?t) # [(6, ?t)]) 0 [] = None"
    using a5 p5 by (rule nackSweep_pending_never_returns)
  then have stuck: "sendNackPackets ?c blockedProcessor = None"
    by (simp add: sendNackPackets_def r)
  have free: "map_option (map_sum id (\<lambda>(packetsSent, sent, st). (packetsSent, sent)))
        (sendNackPackets ?c (blockedProcessor\<lparr>nodePacketCounts := (\<lambda>u. 0)\<rparr>))
      = Some (Inr (2, [\<lparr>dgDestination = 5, dgHeader = [9, 9], dgNumSequenceNumbers = 2,
                         dgSequenceNumbers = [11, 12], dgNumBytes = 8\<rparr>,
                       \<lparr>dgDestination = 6, dgHeader = [9, 9], dgNumSequenceNumbers = 2,
                         dgSequenceNumbers = [11, 12], dgNumBytes = 8\<rparr>]))"
    by code_simp
  from r a6 i6 m h stuck free show ?thesis
    by (intro conjI)
qed

section \<open>Termination of the sweep and of the record loop\<close>

text \<open>
  C7. The sweep does not go on after a live sender that has packets waiting: its
  \<^verbatim>\<open>continue\<close> leaves the iterator on the same entry, and the loop tests the same
  entry again. With the live node 5 in the registry and one packet of that node waiting,
  \<^verbatim>\<open>sendNackPackets\<close> does not return.
\<close>

theorem sendNackPackets_pending_sender_never_returns:
  "isAlive (sampleCollaborators 2) 5
   \<and> hasPacketsToProcessFrom pendingProcessor 5
   \<and> singleSenderStats pendingProcessor
        = [(5, observeAll newSingleSenderStats (map seqOnly [10, 13]))]
   \<and> sendNackPackets (sampleCollaborators 2) pendingProcessor = None"
proof -
  have a: "isAlive (sampleCollaborators 2) 5"
    by (simp add: sampleCollaborators_def)
  have p: "hasPacketsToProcessFrom pendingProcessor 5"
    by (simp add: hasPacketsToProcessFrom_def pendingProcessor_def)
  have r: "singleSenderStats pendingProcessor
             = [(5, observeAll newSingleSenderStats (map seqOnly [10, 13]))]"
    by (simp add: pendingProcessor_def)
  have "nackSweep (sampleCollaborators 2) pendingProcessor []
          ((5, observeAll newSingleSenderStats (map seqOnly [10, 13])) # []) 0 [] = None"
    using a p by (rule nackSweep_pending_never_returns)
  then have "sendNackPackets (sampleCollaborators 2) pendingProcessor = None"
    by (simp add: sendNackPackets_def r)
  with a p r show ?thesis by blast
qed

text \<open>
  C8 as stated fails: the loop has no test for a record of zero bytes. With an octree
  that reports 0 bytes for every record and four unread bytes in the packet, neither the
  loop nor \<^verbatim>\<open>processPacket\<close> returns.
\<close>

theorem zero_bytes_consumed_counterexample:
  "fst (processEditPacketData (sampleCollaborators 0) 0 7 (samplePacket 10) 11 4 None) = 0
   \<and> (11 :: int) < int (length (samplePacket 10))
   \<and> editLoop (sampleCollaborators 0) 7 (samplePacket 10) None
        \<lparr>elOctree = 0, elClock = 1, elAtByte = 11, elEditsInPacket = 0,
         elProcessTime = 0, elLockWaitTime = 0\<rparr> = None
   \<and> processPacket (sampleCollaborators 0) sampleProcessor None (samplePacket 10) = None"
proof -
  let ?c = "sampleCollaborators 0 :: nat collaborators"
  let ?l = "\<lparr>elOctree = 0 :: nat, elClock = 1, elAtByte = 11, elEditsInPacket = 0,
         elProcessTime = 0, elLockWaitTime = 0\<rparr>"
  have z: "\<forall>oct at maxSize. fst (processEditPacketData ?c oct 7 (samplePacket 10) at maxSize None) = 0"
    by (simp add: sampleCollaborators_def)
  have len: "elAtByte ?l < int (length (samplePacket 10))"
    by (simp add: samplePacket_def)
  have loop: "editLoop ?c 7 (samplePacket 10) None ?l = None"
    using len z by (rule editLoop_zero_never_returns)
  have "processPacket ?c sampleProcessor None (samplePacket 10) = None"
    using loop
    by (simp add: processPacket_def recordLoopStart_def sampleCollaborators_def
          sampleProcessor_def samplePacket_def Let_def)
  with z len loop show ?thesis by simp
qed

text \<open>
  C8 (amended). For every edit packet, if the octree reports at least one byte consumed
  for every record, the loop over the records returns, with the cursor at or beyond the
  end of the packet.
\<close>

theorem record_loop_ends_when_bytes_consumed:
  assumes "\<forall>oct at maxSize.
            0 < fst (processEditPacketData c oct packetType packet at maxSize sendingNode)"
  shows "\<exists>l'. editLoop c packetType packet sendingNode l = Some l'
              \<and> int (length packet) \<le> elAtByte l'"
  using assms by (rule editLoop_terminates)

text \<open>Two bytes per record on the sample packet.\<close>

theorem record_loop_ends_when_bytes_consumed_witness:
  "(\<forall>oct at maxSize.
       0 < fst (processEditPacketData (sampleCollaborators 2) oct 7 (samplePacket 10) at maxSize None))
   \<and> (\<exists>l'. editLoop (sampleCollaborators 2) 7 (samplePacket 10) None
               \<lparr>elOctree = 0, elClock = 1, elAtByte = 11, elEditsInPacket = 0,
                elProcessTime = 0, elLockWaitTime = 0\<rparr> = Some l'
            \<and> int (length (samplePacket 10)) \<le> elAtByte l')"
proof -
  have p: "\<forall>oct at maxSize.
       0 < fst (processEditPacketData (sampleCollaborators 2) oct 7 (samplePacket 10) at maxSize None)"
    by (simp add: sampleCollaborators_def)
  from record_loop_ends_when_bytes_consumed [OF p] p show ?thesis by blast
qed

section \<open>The fallback node identity\<close>

lemma map_of_hashInsert: "map_of (hashInsert k v entries) = (map_of entries)(k \<mapsto> v)"
  by (induction entries) (auto simp: fun_eq_iff)

lemma processorTrackInboundPacket_fields:
  "DEFAULT_NODE_ID_REF (processorTrackInboundPacket st u q t e p l) = DEFAULT_NODE_ID_REF st"
  "map_of (singleSenderStats (processorTrackInboundPacket st u q t e p l))
     = (map_of (singleSenderStats st))
         (u \<mapsto> trackInboundPacket
                (case map_of (singleSenderStats st) u of
                   None \<Rightarrow> newSingleSenderStats | Some found \<Rightarrow> found) q t e p l)"
  by (simp_all add: processorTrackInboundPacket_def Let_def map_of_hashInsert)

lemma trackProcessedPacket_fields:
  "DEFAULT_NODE_ID_REF (trackProcessedPacket c st sendingNode packet l)
     = (case sendingNode of Some node \<Rightarrow> node | None \<Rightarrow> DEFAULT_NODE_ID_REF st)"
  "map_of (singleSenderStats (trackProcessedPacket c st sendingNode packet l))
     = (map_of (singleSenderStats st))
         ((case sendingNode of Some node \<Rightarrow> node | None \<Rightarrow> DEFAULT_NODE_ID_REF st)
            \<mapsto> trackInboundPacket
                (case map_of (singleSenderStats st)
                        (case sendingNode of Some node \<Rightarrow> node
                         | None \<Rightarrow> DEFAULT_NODE_ID_REF st) of
                   None \<Rightarrow> newSingleSenderStats | Some found \<Rightarrow> found)
                (readU16 c packet (numBytesForPacketHeader c packet))
                (usecTimestampNow c (clockCalls st)
                   - readU64 c packet (numBytesForPacketHeader c packet + 2))
                (elEditsInPacket l) (elProcessTime l) (elLockWaitTime l))"
  by (simp_all add: trackProcessedPacket_def Let_def processorTrackInboundPacket_fields
        split: option.splits)

lemma processPacket_handled:
  assumes "handlesEditPacketType c (packetTypeForPacket c packet)"
  shows "processPacket c st sendingNode packet
           = map_option (trackProcessedPacket c st sendingNode packet)
               (editLoop c (packetTypeForPacket c packet) packet sendingNode
                  (recordLoopStart c st packet))"
  using assms by (simp add: processPacket_def Let_def split: option.splits)

lemma track_10_then_20:
  "incomingLastSequence
     (trackInboundPacket (trackInboundPacket newSingleSenderStats 10 t1 e1 p1 l1) 20 t2 e2 p2 l2)
     = 20
   \<and> missingSequenceNumbers
       (trackInboundPacket (trackInboundPacket newSingleSenderStats 10 t1 e1 p1 l1) 20 t2 e2 p2 l2)
     = {11, 12, 13, 14, 15, 16, 17, 18, 19}
   \<and> totalPackets
       (trackInboundPacket (trackInboundPacket newSingleSenderStats 10 t1 e1 p1 l1) 20 t2 e2 p2 l2)
     = 2"
  by (simp add: trackInboundPacket_def trackSequence_def
        expectedSequence_def rolloverCorrect_def pruneMissing_def updateOtherStats_def
        newSingleSenderStats_def insertSkipped.simps UINT16_RANGE_def
        MAX_REASONABLE_SEQUENCE_GAP_def MAX_MISSING_SEQUENCE_SIZE_def Let_def
        insert_commute)

lemma sample_sequence:
  "readU16 (sampleCollaborators b) (samplePacket 10)
     (numBytesForPacketHeader (sampleCollaborators b) (samplePacket 10)) = 10"
  "readU16 (sampleCollaborators b) (samplePacket 20)
     (numBytesForPacketHeader (sampleCollaborators b) (samplePacket 20)) = 20"
  by (simp_all add: readU16_def byteAt_def leValue_def sampleCollaborators_def samplePacket_def
        upt_rec)

text \<open>
  C10. Take a packet of a handled type whose record loop returns.
  \<^item> Invoked with a null sending node, \<^verbatim>\<open>processPacket\<close> returns, leaves
    \<^verbatim>\<open>DEFAULT_NODE_ID_REF\<close> as it is, and the registry afterwards holds, under the
    identity that \<^verbatim>\<open>DEFAULT_NODE_ID_REF\<close> held, the tracker of that identity (a fresh
    one when there was none) after one more \<^verbatim>\<open>trackInboundPacket\<close> with the
    sequence number read from the packet; every other entry is as before.
  \<^item> Invoked with a known sender, it returns with \<^verbatim>\<open>DEFAULT_NODE_ID_REF\<close> set to
    the identity of that sender, whose tracker got the packet.
  So a packet without sender that follows a packet of a known sender goes to the tracker
  of that sender, and the entry of the nil identity is not touched unless the sender is
  nil. The record loop returns when the octree consumes at least one byte per record.
\<close>

theorem anonymous_packet_tracked_under_last_sender:
  assumes handled: "handlesEditPacketType c (packetTypeForPacket c packet)"
    and loop: "editLoop c (packetTypeForPacket c packet) packet sendingNode
                 (recordLoopStart c st packet) = Some l"
    and target: "target = (case sendingNode of Some node \<Rightarrow> node
                           | None \<Rightarrow> DEFAULT_NODE_ID_REF st)"
  shows "\<exists>st'. processPacket c st sendingNode packet = Some st'
           \<and> DEFAULT_NODE_ID_REF st' = target
           \<and> map_of (singleSenderStats st') target
               = Some (trackInboundPacket
                         (case map_of (singleSenderStats st) target of
                            None \<Rightarrow> newSingleSenderStats | Some found \<Rightarrow> found)
                         (readU16 c packet (numBytesForPacketHeader c packet))
                         (usecTimestampNow c (clockCalls st)
                            - readU64 c packet (numBytesForPacketHeader c packet + 2))
                         (elEditsInPacket l) (elProcessTime l) (elLockWaitTime l))
           \<and> (\<forall>other. other \<noteq> target \<longrightarrow>
                 map_of (singleSenderStats st') other = map_of (singleSenderStats st) other)
           \<and> (\<forall>packet' l'.
                 handlesEditPacketType c (packetTypeForPacket c packet') \<longrightarrow>
                 editLoop c (packetTypeForPacket c packet') packet' None
                   (recordLoopStart c st' packet') = Some l' \<longrightarrow>
                 (\<exists>st''. processPacket c st' None packet' = Some st''
                    \<and> DEFAULT_NODE_ID_REF st'' = target
                    \<and> map_of (singleSenderStats st'') target
                        = Some (trackInboundPacket
                                  (the (map_of (singleSenderStats st') target))
                                  (readU16 c packet' (numBytesForPacketHeader c packet'))
                                  (usecTimestampNow c (clockCalls st')
                                     - readU64 c packet' (numBytesForPacketHeader c packet' + 2))
                                  (elEditsInPacket l') (elProcessTime l') (elLockWaitTime l'))
                    \<and> (\<forall>other. other \<noteq> target \<longrightarrow>
                          map_of (singleSenderStats st'') other
                            = map_of (singleSenderStats st') other)))"
proof -
  let ?st' = "trackProcessedPacket c st sendingNode packet l"
  have ret: "processPacket c st sendingNode packet = Some ?st'"
    using processPacket_handled [OF handled] loop by simp
  have d: "DEFAULT_NODE_ID_REF ?st' = target"
    unfolding target by (rule trackProcessedPacket_fields)
  have m: "map_of (singleSenderStats ?st')
             = (map_of (singleSenderStats st))
                 (target \<mapsto> trackInboundPacket
                     (case map_of (singleSenderStats st) target of
                        None \<Rightarrow> newSingleSenderStats | Some found \<Rightarrow> found)
                     (readU16 c packet (numBytesForPacketHeader c packet))
                     (usecTimestampNow c (clockCalls st)
                        - readU64 c packet (numBytesForPacketHeader c packet + 2))
                     (elEditsInPacket l) (elProcessTime l) (elLockWaitTime l))"
    unfolding target by (rule trackProcessedPacket_fields)
  have next_packet: "\<exists>st''. processPacket c ?st' None packet' = Some st''
                    \<and> DEFAULT_NODE_ID_REF st'' = target
                    \<and> map_of (singleSenderStats st'') target
                        = Some (trackInboundPacket
                                  (the (map_of (singleSenderStats ?st') target))
                                  (readU16 c packet' (numBytesForPacketHeader c packet'))
                                  (usecTimestampNow c (clockCalls ?st')
                                     - readU64 c packet' (numBytesForPacketHeader c packet' + 2))
                                  (elEditsInPacket l') (elProcessTime l') (elLockWaitTime l'))
                    \<and> (\<forall>other. other \<noteq> target \<longrightarrow>
                          map_of (singleSenderStats st'') other
                            = map_of (singleSenderStats ?st') other)"
    if h': "handlesEditPacketType c (packetTypeForPacket c packet')"
      and l': "editLoop c (packetTypeForPacket c packet') packet' None
                 (recordLoopStart c ?st' packet') = Some l'"
    for packet' l'
  proof -
    let ?st'' = "trackProcessedPacket c ?st' None packet' l'"
    have "processPacket c ?st' None packet' = Some ?st''"
      using processPacket_handled [OF h'] l' by simp
    moreover have "DEFAULT_NODE_ID_REF ?st'' = target"
      using d by (simp add: trackProcessedPacket_fields)
    moreover have "map_of (singleSenderStats ?st'')
             = (map_of (singleSenderStats ?st'))
                 (target \<mapsto> trackInboundPacket
                     (the (map_of (singleSenderStats ?st') target))
                     (readU16 c packet' (numBytesForPacketHeader c packet'))
                     (usecTimestampNow c (clockCalls ?st')
                        - readU64 c packet' (numBytesForPacketHeader c packet' + 2))
                     (elEditsInPacket l') (elProcessTime l') (elLockWaitTime l'))"
      using d m by (simp add: trackProcessedPacket_fields(2) [of c ?st' None])
    ultimately show ?thesis
      by simp
  qed
  from ret d m next_packet show ?thesis
    by simp
qed

text \<open>
  Node 5 sends sequence 10; then a packet without sender carries sequence 20. Both
  calls return, and the tracker of node 5 ends with last sequence 20, the numbers 11 to
  19 missing and two packets counted; there is no entry for the nil identity.
\<close>

theorem anonymous_packet_tracked_under_last_sender_witness:
  "handlesEditPacketType (sampleCollaborators 2)
     (packetTypeForPacket (sampleCollaborators 2) (samplePacket 10))
   \<and> handlesEditPacketType (sampleCollaborators 2)
       (packetTypeForPacket (sampleCollaborators 2) (samplePacket 20))
   \<and> (\<exists>st1 st2 t.
         processPacket (sampleCollaborators 2) sampleProcessor (Some 5) (samplePacket 10)
           = Some st1
         \<and> processPacket (sampleCollaborators 2) st1 None (samplePacket 20) = Some st2
         \<and> DEFAULT_NODE_ID_REF st2 = 5
         \<and> map_of (singleSenderStats st2) 5 = Some t
         \<and> incomingLastSequence t = 20
         \<and> missingSequenceNumbers t = {11, 12, 13, 14, 15, 16, 17, 18, 19}
         \<and> totalPackets t = 2
         \<and> map_of (singleSenderStats st2) 0 = None)"
proof -
  let ?c = "sampleCollaborators 2 :: nat collaborators"
  have h1: "handlesEditPacketType ?c (packetTypeForPacket ?c (samplePacket 10))"
    by (simp add: sampleCollaborators_def samplePacket_def)
  have h2: "handlesEditPacketType ?c (packetTypeForPacket ?c (samplePacket 20))"
    by (simp add: sampleCollaborators_def samplePacket_def)
  have progress: "\<forall>oct at maxSize.
         0 < fst (processEditPacketData ?c oct t packet at maxSize node)" for t packet node
    by (simp add: sampleCollaborators_def)
  obtain l1 where l1: "editLoop ?c (packetTypeForPacket ?c (samplePacket 10)) (samplePacket 10)
                         (Some 5) (recordLoopStart ?c sampleProcessor (samplePacket 10)) = Some l1"
    using editLoop_terminates [OF progress] by blast
  have tg1: "(5 :: uuid) = (case Some 5 of Some node \<Rightarrow> node
                            | None \<Rightarrow> DEFAULT_NODE_ID_REF sampleProcessor)"
    by simp
  from anonymous_packet_tracked_under_last_sender [OF h1 l1 tg1]
  obtain st1 where r1: "processPacket ?c sampleProcessor (Some 5) (samplePacket 10) = Some st1"
    and d1: "DEFAULT_NODE_ID_REF st1 = 5"
    and m1: "map_of (singleSenderStats st1) 5
               = Some (trackInboundPacket
                         (case map_of (singleSenderStats sampleProcessor) 5 of
                            None \<Rightarrow> newSingleSenderStats | Some found \<Rightarrow> found)
                         (readU16 ?c (samplePacket 10) (numBytesForPacketHeader ?c (samplePacket 10)))
                         (usecTimestampNow ?c (clockCalls sampleProcessor)
                            - readU64 ?c (samplePacket 10)
                                (numBytesForPacketHeader ?c (samplePacket 10) + 2))
                         (elEditsInPacket l1) (elProcessTime l1) (elLockWaitTime l1))"
    and o1: "\<forall>other. other \<noteq> 5 \<longrightarrow>
               map_of (singleSenderStats st1) other
                 = map_of (singleSenderStats sampleProcessor) other"
    by (elim exE conjE) (rule that; assumption)
  obtain l2 where l2: "editLoop ?c (packetTypeForPacket ?c (samplePacket 20)) (samplePacket 20)
                         None (recordLoopStart ?c st1 (samplePacket 20)) = Some l2"
    using editLoop_terminates [OF progress] by blast
  have tg2: "(5 :: uuid) = (case None of Some node \<Rightarrow> node | None \<Rightarrow> DEFAULT_NODE_ID_REF st1)"
    using d1 by simp
  from anonymous_packet_tracked_under_last_sender [OF h2 l2 tg2]
  obtain st2 where r2: "processPacket ?c st1 None (samplePacket 20) = Some st2"
    and d2: "DEFAULT_NODE_ID_REF st2 = 5"
    and m2: "map_of (singleSenderStats st2) 5
               = Some (trackInboundPacket
                         (case map_of (singleSenderStats st1) 5 of
                            None \<Rightarrow> newSingleSenderStats | Some found \<Rightarrow> found)
                         (readU16 ?c (samplePacket 20) (numBytesForPacketHeader ?c (samplePacket 20)))
                         (usecTimestampNow ?c (clockCalls st1)
                            - readU64 ?c (samplePacket 20)
                                (numBytesForPacketHeader ?c (samplePacket 20) + 2))
                         (elEditsInPacket l2) (elProcessTime l2) (elLockWaitTime l2))"
    and o2: "\<forall>other. other \<noteq> 5 \<longrightarrow>
               map_of (singleSenderStats st2) other = map_of (singleSenderStats st1) other"
    by (elim exE conjE) (rule that; assumption)
  have empty: "map_of (singleSenderStats sampleProcessor) k = None" for k
    by (simp add: sampleProcessor_def)
  note t = track_10_then_20
    [of "usecTimestampNow ?c (clockCalls sampleProcessor)
           - readU64 ?c (samplePacket 10) (numBytesForPacketHeader ?c (samplePacket 10) + 2)"
        "elEditsInPacket l1" "elProcessTime l1" "elLockWaitTime l1"
        "usecTimestampNow ?c (clockCalls st1)
           - readU64 ?c (samplePacket 20) (numBytesForPacketHeader ?c (samplePacket 20) + 2)"
        "elEditsInPacket l2" "elProcessTime l2" "elLockWaitTime l2"]
  have m2': "map_of (singleSenderStats st2) 5
              = Some (trackInboundPacket
                        (trackInboundPacket newSingleSenderStats 10
                           (usecTimestampNow ?c (clockCalls sampleProcessor)
                              - readU64 ?c (samplePacket 10)
                                  (numBytesForPacketHeader ?c (samplePacket 10) + 2))
                           (elEditsInPacket l1) (elProcessTime l1) (elLockWaitTime l1))
                        20
                        (usecTimestampNow ?c (clockCalls st1)
                           - readU64 ?c (samplePacket 20)
                               (numBytesForPacketHeader ?c (samplePacket 20) + 2))
                        (elEditsInPacket l2) (elProcessTime l2) (elLockWaitTime l2))"
    unfolding m2 m1 empty sample_sequence by simp
  have nil: "map_of (singleSenderStats st2) 0 = None"
    using o1 o2 empty [of 0] by simp
  from r1 r2 d2 m2' t nil have "\<exists>st1 st2 t.
         processPacket ?c sampleProcessor (Some 5) (samplePacket 10) = Some st1
         \<and> processPacket ?c st1 None (samplePacket 20) = Some st2
         \<and> DEFAULT_NODE_ID_REF st2 = 5
         \<and> map_of (singleSenderStats st2) 5 = Some t
         \<and> incomingLastSequence t = 20
         \<and> missingSequenceNumbers t = {11, 12, 13, 14, 15, 16, 17, 18, 19}
         \<and> totalPackets t = 2
         \<and> map_of (singleSenderStats st2) 0 = None"
    by blast
  with h1 h2 show ?thesis
    by blast
qed

section \<open>The round trip of a snapshot envelope\<close>

lemma sint_scast_ucast_32:
  "sint (scast (ucast (n :: u64) :: 32 word) :: u64) = signed_take_bit 31 (uint n)"
proof -
  have "sint (scast (ucast n :: 32 word) :: u64)
          = signed_take_bit 63 (sint (ucast n :: 32 word))"
    using signed_scast_eq [of "ucast n :: 32 word", where ?'a = int and ?'c = 64] by simp
  also have "sint (ucast n :: 32 word) = signed_take_bit 31 (uint n)"
    using signed_ucast_eq [of n, where ?'a = int and ?'c = 32] by simp
  also have "signed_take_bit 63 (signed_take_bit 31 (uint n)) = signed_take_bit 31 (uint n)"
    by (simp only: signed_take_bit_signed_take_bit)
  finally show ?thesis .
qed

lemma scast_ucast_fits:
  assumes "fitsInt n"
  shows "(scast (ucast n :: 32 word) :: u64) = n"
proof (rule signed_word_eqI [where ?'a = int])
  have "take_bit 32 (uint n) = take_bit 32 (take_bit 64 (sint n))"
    using uint_sint [of n] by simp
  also have "\<dots> = take_bit 32 (sint n)"
    by (simp only: take_bit_take_bit)
  finally have "take_bit (Suc 31) (uint n) = take_bit (Suc 31) (sint n)"
    by simp
  then have "signed_take_bit 31 (uint n) = signed_take_bit 31 (sint n)"
    by (simp only: signed_take_bit_eq_iff_take_bit_eq)
  also have "\<dots> = sint n"
    using assms by (intro signed_take_bit_int_eq_self) (simp_all add: fitsInt_def)
  finally show "sint (scast (ucast n :: 32 word) :: u64) = sint n"
    unfolding sint_scast_ucast_32 .
qed

lemma fitsInt_scast: "fitsInt (scast (w :: 32 word))"
proof -
  have "sint (scast w :: u64) = signed_take_bit 63 (sint w)"
    using signed_scast_eq [of w, where ?'a = int and ?'c = 64] by simp
  also have "\<dots> = sint w"
    using sint_ge [of w] sint_lt [of w] by (intro signed_take_bit_int_eq_self) simp_all
  finally show ?thesis
    using sint_ge [of w] sint_lt [of w] by (simp add: fitsInt_def)
qed

lemma toByteArray_parsed:
  assumes laws: "roundTripLaws c"
  shows "\<exists>m. parseEntities c (toByteArray c e) = Some m
             \<and> (\<exists>vi. m ''Id'' = Some vi \<and> variantToUuid c vi = idField e)
             \<and> (\<exists>vd. m ''DataVersion'' = Some vd
                      \<and> (fitsInt (dataVersion e) \<longrightarrow> variantToInt c vd = ucast (dataVersion e)))
             \<and> (\<exists>vv. m ''Version'' = Some vv
                      \<and> (fitsInt (version e) \<longrightarrow> variantToInt c vv = ucast (version e)))
             \<and> (\<exists>ve. m ''Entities'' = Some ve
                      \<and> map (variantToJsonObject c) (variantToList c ve)
                          = map (variantToJsonObject c) (variantEntityData e))"
proof -
  let ?doc = "writeSubclassData c e
          (Map.empty(''DataVersion'' \<mapsto> JsonInt64 (dataVersion e),
                     ''Id'' \<mapsto> JsonString (uuidToString c (idField e)),
                     ''Version'' \<mapsto> JsonInt64 (version e)))"
  from laws obtain m where p: "parseEntities c (documentToJson c ?doc) = Some m"
    and r: "\<And>key. rel_option (standsFor c) (m key) (?doc key)"
    unfolding roundTripLaws_def by blast
  have d: "?doc ''Id'' = Some (JsonString (uuidToString c (idField e)))"
    "?doc ''DataVersion'' = Some (JsonInt64 (dataVersion e))"
    "?doc ''Version'' = Some (JsonInt64 (version e))"
    "?doc ''Entities'' = Some (JsonArray (map (variantToJsonObject c) (variantEntityData e)))"
    by (simp_all add: writeSubclassData_def)
  have i: "\<exists>vi. m ''Id'' = Some vi \<and> variantToUuid c vi = idField e"
    using r [of "''Id''"] unfolding d by (cases "m ''Id''") (auto simp: standsFor_def)
  have dv: "\<exists>vd. m ''DataVersion'' = Some vd
              \<and> (fitsInt (dataVersion e) \<longrightarrow> variantToInt c vd = ucast (dataVersion e))"
    using r [of "''DataVersion''"] unfolding d
    by (cases "m ''DataVersion''") (auto simp: standsFor_def)
  have v: "\<exists>vv. m ''Version'' = Some vv
              \<and> (fitsInt (version e) \<longrightarrow> variantToInt c vv = ucast (version e))"
    using r [of "''Version''"] unfolding d
    by (cases "m ''Version''") (auto simp: standsFor_def)
  have en: "\<exists>ve. m ''Entities'' = Some ve
              \<and> map (variantToJsonObject c) (variantToList c ve)
                  = map (variantToJsonObject c) (variantEntityData e)"
    using r [of "''Entities''"] unfolding d
    by (cases "m ''Entities''") (auto simp: standsFor_def)
  from p i dv v en show ?thesis
    unfolding toByteArray_def by blast
qed

text \<open>
  C9 (amended). With a compression that \<^verbatim>\<open>gunzip\<close> undoes and a parser that gives
  back the values of a written document, for every envelope whose bytes can be
  compressed: writing it, compressing, and reading the result back succeeds and yields
  the same identifier and the same entity objects in the same order; it yields the same
  data version exactly when the data version fits a signed 32-bit integer, and the same
  version exactly when the version does, because both are read back through
  \<^verbatim>\<open>toInt()\<close>.
\<close>

theorem snapshot_round_trip:
  assumes laws: "roundTripLaws c"
    and gz: "gzip c (toByteArray c e) \<noteq> None"
  shows "\<exists>e'. readOctreeDataInfoFromData c (toGzippedByteArray c e) e0 = (True, e')
           \<and> idField e' = idField e
           \<and> map (variantToJsonObject c) (variantEntityData e')
               = map (variantToJsonObject c) (variantEntityData e)
           \<and> (dataVersion e' = dataVersion e \<longleftrightarrow> fitsInt (dataVersion e))
           \<and> (version e' = version e \<longleftrightarrow> fitsInt (version e))"
proof -
  from gz obtain gzData where g: "gzip c (toByteArray c e) = Some gzData"
    by blast
  with laws have u: "gunzip c gzData = Some (toByteArray c e)"
    unfolding roundTripLaws_def by blast
  from toByteArray_parsed [OF laws, of e]
  obtain m vi vd vv ve where p: "parseEntities c (toByteArray c e) = Some m"
    and i: "m ''Id'' = Some vi" "variantToUuid c vi = idField e"
    and d: "m ''DataVersion'' = Some vd"
           "fitsInt (dataVersion e) \<longrightarrow> variantToInt c vd = ucast (dataVersion e)"
    and v: "m ''Version'' = Some vv"
           "fitsInt (version e) \<longrightarrow> variantToInt c vv = ucast (version e)"
    and en: "m ''Entities'' = Some ve"
            "map (variantToJsonObject c) (variantToList c ve)
               = map (variantToJsonObject c) (variantEntityData e)"
    by blast
  let ?e' = "e0\<lparr>idField := variantToUuid c vi,
                 dataVersion := scast (variantToInt c vd),
                 version := scast (variantToInt c vv),
                 variantEntityData := variantToList c ve\<rparr>"
  have rd: "readOctreeDataInfoFromData c (toGzippedByteArray c e) e0 = (True, ?e')"
    by (simp add: readOctreeDataInfoFromData_def toGzippedByteArray_def g u p
          readOctreeDataInfoFromMap_def readSubclassData_def variantAt_def i d v en Let_def)
  have dvs: "scast (variantToInt c vd) = dataVersion e \<longleftrightarrow> fitsInt (dataVersion e)"
  proof
    assume "scast (variantToInt c vd) = dataVersion e"
    then show "fitsInt (dataVersion e)"
      using fitsInt_scast [of "variantToInt c vd"] by simp
  next
    assume f: "fitsInt (dataVersion e)"
    with d(2) have "variantToInt c vd = ucast (dataVersion e)" by simp
    then show "scast (variantToInt c vd) = dataVersion e"
      using scast_ucast_fits [OF f] by simp
  qed
  have vs: "scast (variantToInt c vv) = version e \<longleftrightarrow> fitsInt (version e)"
  proof
    assume "scast (variantToInt c vv) = version e"
    then show "fitsInt (version e)"
      using fitsInt_scast [of "variantToInt c vv"] by simp
  next
    assume f: "fitsInt (version e)"
    with v(2) have "variantToInt c vv = ucast (version e)" by simp
    then show "scast (variantToInt c vv) = version e"
      using scast_ucast_fits [OF f] by simp
  qed
  show ?thesis
    unfolding rd using i(2) en(2) dvs vs by simp
qed

lemma sampleCodec_laws: "roundTripLaws sampleCodec"
  unfolding roundTripLaws_def
proof (intro conjI allI impI)
  fix data gzData :: "nat \<times> (string \<Rightarrow> nat jsonValue option)"
  assume "gzip sampleCodec data = Some gzData"
  then show "gunzip sampleCodec gzData = Some data"
    by (cases data) (auto simp: sampleCodec_def)
next
  fix doc :: "string \<Rightarrow> nat jsonValue option"
  have s: "standsFor sampleCodec j j" for j
    by (cases j) (simp_all add: standsFor_def sampleCodec_def comp_def)
  have "rel_option (standsFor sampleCodec) (doc key) (doc key)" for key
    by (cases "doc key") (simp_all add: s)
  then show "\<exists>m. parseEntities sampleCodec (documentToJson sampleCodec doc) = Some m
               \<and> (\<forall>key. rel_option (standsFor sampleCodec) (m key) (doc key))"
    by (simp add: sampleCodec_def)
qed

text \<open>Scenario S7 of the spec: data version 7, version 3, two entities.\<close>

theorem snapshot_round_trip_witness:
  "roundTripLaws sampleCodec
   \<and> gzip sampleCodec (toByteArray sampleCodec (sampleEnvelope 7)) \<noteq> None
   \<and> fitsInt (dataVersion (sampleEnvelope 7))
   \<and> fitsInt (version (sampleEnvelope 7))
   \<and> (\<exists>e'. readOctreeDataInfoFromData sampleCodec
               (toGzippedByteArray sampleCodec (sampleEnvelope 7)) blankEnvelope = (True, e')
           \<and> idField e' = 5 \<and> dataVersion e' = 7 \<and> version e' = 3
           \<and> map (variantToJsonObject sampleCodec) (variantEntityData e') = [1, 2])"
proof -
  have g: "gzip sampleCodec (toByteArray sampleCodec (sampleEnvelope 7)) \<noteq> None"
    by (simp add: sampleCodec_def toByteArray_def)
  have f: "fitsInt (dataVersion (sampleEnvelope 7))" "fitsInt (version (sampleEnvelope 7))"
    by (simp_all add: fitsInt_def sampleEnvelope_def)
  have v: "idField (sampleEnvelope 7) = 5" "dataVersion (sampleEnvelope 7) = 7"
    "version (sampleEnvelope 7) = 3"
    "map (variantToJsonObject sampleCodec) (variantEntityData (sampleEnvelope 7)) = [1, 2]"
    by (simp_all add: sampleEnvelope_def sampleCodec_def)
  from snapshot_round_trip [OF sampleCodec_laws g, of blankEnvelope] f
  show ?thesis
    unfolding v using sampleCodec_laws g by auto
qed

text \<open>
  C9 as stated fails: an envelope with data version \<open>2^31\<close> is written with that number
  and read back through \<^verbatim>\<open>toInt()\<close>; with the sample codec the read succeeds and
  the data version comes back as \<open>2^64 - 2^31\<close>.
\<close>

theorem snapshot_round_trip_counterexample:
  "fst (readOctreeDataInfoFromData sampleCodec
          (toGzippedByteArray sampleCodec (sampleEnvelope 2147483648)) blankEnvelope)
   \<and> dataVersion (snd (readOctreeDataInfoFromData sampleCodec
          (toGzippedByteArray sampleCodec (sampleEnvelope 2147483648)) blankEnvelope))
       = 18446744071562067968
   \<and> dataVersion (snd (readOctreeDataInfoFromData sampleCodec
          (toGzippedByteArray sampleCodec (sampleEnvelope 2147483648)) blankEnvelope))
       \<noteq> dataVersion (sampleEnvelope 2147483648)"
  by (simp add: readOctreeDataInfoFromData_def toGzippedByteArray_def toByteArray_def
        writeSubclassData_def readOctreeDataInfoFromMap_def readSubclassData_def
        variantAt_def sampleCodec_def sampleEnvelope_def blankEnvelope_def Let_def)

end
